theory Spec2Isabelle
  imports Main
begin

section \<open>Data model of RBTree.c\<close>

text \<open>
  Nodes live in a store that maps addresses to node structs; a pointer is an optional
  address, \<open>None\<close> being \<open>NULL\<close>.  An element is a \<open>void *\<close>, so it is an optional
  value as well: \<open>None\<close> is the \<open>NULL\<close> element.
\<close>

type_synonym addr = nat
type_synonym ptr = "addr option"

datatype Color = RED | BLACK

record 'a Node =
  parent :: ptr
  left :: ptr
  right :: ptr
  color :: Color
  data :: "'a option"

type_synonym 'a heap = "addr \<Rightarrow> 'a Node option"

text \<open>
  Modelled from the spec: the header RBTree.h with the struct declarations is not part of
  the sources.  The tree struct holds the root pointer, the comparator and the element
  count (a natural number here, the spec's "total element count").  The destructor
  callback \<open>freeFunc\<close> and the visitor are effects of the caller: the model records every
  invocation of the destructor in the log \<open>freed\<close> of the program state, and threads the
  visitor's context.
\<close>

record 'a RBTree =
  root :: ptr
  compFunc :: "'a option \<Rightarrow> 'a option \<Rightarrow> int"
  size :: nat

record 'a state =
  nodes :: "'a heap"
  tree :: "'a RBTree"
  freed :: "'a option list"

datatype error = NullDeref | BadPointer | OutOfFuel

definition START_SIZE :: nat where "START_SIZE = 0"
definition RIGHT_CHILD :: int where "RIGHT_CHILD = 1"
definition LEFT_CHILD :: int where "LEFT_CHILD = - 1"
definition FAILURE :: int where "FAILURE = 0"
definition SUCCESS :: int where "SUCCESS = 1"

subsection \<open>Sequencing of fallible steps, reads and writes through pointers\<close>

definition bindE :: "error + 'x \<Rightarrow> ('x \<Rightarrow> error + 'y) \<Rightarrow> error + 'y" where
  "bindE m f = (case m of Inl e \<Rightarrow> Inl e | Inr x \<Rightarrow> f x)"

definition deref :: "'a heap \<Rightarrow> ptr \<Rightarrow> error + 'a Node" where
  "deref h p = (case p of None \<Rightarrow> Inl NullDeref
                | Some a \<Rightarrow> (case h a of None \<Rightarrow> Inl BadPointer | Some n \<Rightarrow> Inr n))"

definition assign :: "'a heap \<Rightarrow> ptr \<Rightarrow> ('a Node \<Rightarrow> 'a Node) \<Rightarrow> error + 'a heap" where
  "assign h p f = (case p of None \<Rightarrow> Inl NullDeref
                   | Some a \<Rightarrow> (case h a of None \<Rightarrow> Inl BadPointer
                                | Some n \<Rightarrow> Inr (h(a \<mapsto> f n))))"

subsection \<open>Construction\<close>

definition newRBTree :: "('a option \<Rightarrow> 'a option \<Rightarrow> int) \<Rightarrow> 'a state" where
  "newRBTree cf =
     \<lparr>nodes = Map.empty, tree = \<lparr>root = None, compFunc = cf, size = START_SIZE\<rparr>, freed = []\<rparr>"

subsection \<open>Sides and uncles\<close>

definition isRightChild ::
  "('a option \<Rightarrow> 'a option \<Rightarrow> int) \<Rightarrow> 'a heap \<Rightarrow> ptr \<Rightarrow> error + int" where
  "isRightChild cf h toCheck =
     bindE (deref h toCheck) (\<lambda>n.
       if parent n = None then Inr 0
       else bindE (deref h (parent n)) (\<lambda>p.
         if right p \<noteq> None then
           bindE (deref h (right p)) (\<lambda>r.
             if cf (data r) (data n) = 0 then Inr RIGHT_CHILD else Inr LEFT_CHILD)
         else Inr LEFT_CHILD))"

definition findUncle :: "ptr \<Rightarrow> 'a state \<Rightarrow> error + ptr" where
  "findUncle toFind s =
     bindE (deref (nodes s) toFind) (\<lambda>n.
     bindE (isRightChild (compFunc (tree s)) (nodes s) (parent n)) (\<lambda>side.
     bindE (deref (nodes s) (parent n)) (\<lambda>p.
     bindE (deref (nodes s) (parent p)) (\<lambda>g.
       if side = RIGHT_CHILD then Inr (left g) else Inr (right g)))))"

subsection \<open>Rotations\<close>

definition leftRightSwitch :: "ptr \<Rightarrow> ptr \<Rightarrow> ptr \<Rightarrow> 'a heap \<Rightarrow> error + 'a heap" where
  "leftRightSwitch newNode par grandparent h =
     bindE (deref h newNode) (\<lambda>n.
     bindE (assign h par (\<lambda>x. x\<lparr>right := left n\<rparr>)) (\<lambda>h1.
     bindE (if left n \<noteq> None then assign h1 (left n) (\<lambda>x. x\<lparr>parent := par\<rparr>) else Inr h1) (\<lambda>h2.
     bindE (assign h2 newNode (\<lambda>x. x\<lparr>left := par\<rparr>)) (\<lambda>h3.
     bindE (assign h3 par (\<lambda>x. x\<lparr>parent := newNode\<rparr>)) (\<lambda>h4.
     bindE (assign h4 newNode (\<lambda>x. x\<lparr>parent := grandparent\<rparr>)) (\<lambda>h5.
       assign h5 grandparent (\<lambda>x. x\<lparr>left := newNode\<rparr>)))))))"

definition rightLeftSwitch :: "ptr \<Rightarrow> ptr \<Rightarrow> ptr \<Rightarrow> 'a heap \<Rightarrow> error + 'a heap" where
  "rightLeftSwitch newNode par grandparent h =
     bindE (deref h newNode) (\<lambda>n.
     bindE (assign h par (\<lambda>x. x\<lparr>left := right n\<rparr>)) (\<lambda>h1.
     bindE (if right n \<noteq> None then assign h1 (right n) (\<lambda>x. x\<lparr>parent := par\<rparr>) else Inr h1) (\<lambda>h2.
     bindE (assign h2 newNode (\<lambda>x. x\<lparr>right := par\<rparr>)) (\<lambda>h3.
     bindE (assign h3 par (\<lambda>x. x\<lparr>parent := newNode\<rparr>)) (\<lambda>h4.
     bindE (assign h4 grandparent (\<lambda>x. x\<lparr>right := newNode\<rparr>)) (\<lambda>h5.
       assign h5 newNode (\<lambda>x. x\<lparr>parent := grandparent\<rparr>)))))))"

definition leftLeftSwitch :: "ptr \<Rightarrow> ptr \<Rightarrow> 'a state \<Rightarrow> error + 'a state" where
  "leftLeftSwitch par grandparent s =
     bindE (deref (nodes s) grandparent) (\<lambda>g.
     bindE (assign (nodes s) par (\<lambda>x. x\<lparr>parent := parent g\<rparr>)) (\<lambda>h0.
     bindE (deref h0 par) (\<lambda>p0.
     bindE (if parent p0 = None then Inr (s\<lparr>nodes := h0, tree := (tree s)\<lparr>root := par\<rparr>\<rparr>)
            else
              bindE (isRightChild (compFunc (tree s)) h0 grandparent) (\<lambda>side.
              bindE (deref h0 grandparent) (\<lambda>g0.
              bindE (if side = RIGHT_CHILD then assign h0 (parent g0) (\<lambda>x. x\<lparr>right := par\<rparr>)
                     else assign h0 (parent g0) (\<lambda>x. x\<lparr>left := par\<rparr>)) (\<lambda>h'.
                Inr (s\<lparr>nodes := h'\<rparr>))))) (\<lambda>s1.
     bindE (deref (nodes s1) par) (\<lambda>p.
     bindE (assign (nodes s1) grandparent (\<lambda>x. x\<lparr>left := right p\<rparr>)) (\<lambda>h1.
     bindE (if right p \<noteq> None then assign h1 (right p) (\<lambda>x. x\<lparr>parent := grandparent\<rparr>)
            else Inr h1) (\<lambda>h2.
     bindE (assign h2 par (\<lambda>x. x\<lparr>right := grandparent\<rparr>)) (\<lambda>h3.
     bindE (assign h3 grandparent (\<lambda>x. x\<lparr>parent := par\<rparr>)) (\<lambda>h4.
       Inr (s1\<lparr>nodes := h4\<rparr>))))))))))"

definition rightRightSwitch :: "ptr \<Rightarrow> ptr \<Rightarrow> 'a state \<Rightarrow> error + 'a state" where
  "rightRightSwitch par grandparent s =
     bindE (deref (nodes s) grandparent) (\<lambda>g.
     bindE (assign (nodes s) par (\<lambda>x. x\<lparr>parent := parent g\<rparr>)) (\<lambda>h0.
     bindE (deref h0 par) (\<lambda>p0.
     bindE (if parent p0 = None then Inr (s\<lparr>nodes := h0, tree := (tree s)\<lparr>root := par\<rparr>\<rparr>)
            else
              bindE (isRightChild (compFunc (tree s)) h0 grandparent) (\<lambda>side.
              bindE (deref h0 grandparent) (\<lambda>g0.
              bindE (if side = RIGHT_CHILD then assign h0 (parent g0) (\<lambda>x. x\<lparr>right := par\<rparr>)
                     else assign h0 (parent g0) (\<lambda>x. x\<lparr>left := par\<rparr>)) (\<lambda>h'.
                Inr (s\<lparr>nodes := h'\<rparr>))))) (\<lambda>s1.
     bindE (deref (nodes s1) par) (\<lambda>p.
     bindE (assign (nodes s1) grandparent (\<lambda>x. x\<lparr>right := left p\<rparr>)) (\<lambda>h1.
     bindE (if left p \<noteq> None then assign h1 (left p) (\<lambda>x. x\<lparr>parent := grandparent\<rparr>)
            else Inr h1) (\<lambda>h2.
     bindE (assign h2 par (\<lambda>x. x\<lparr>left := grandparent\<rparr>)) (\<lambda>h3.
     bindE (assign h3 grandparent (\<lambda>x. x\<lparr>parent := par\<rparr>)) (\<lambda>h4.
       Inr (s1\<lparr>nodes := h4\<rparr>))))))))))"

subsection \<open>The fixup\<close>

text \<open>
  \<open>modifyRedBlack\<close> reassigns its local variable \<open>parent\<close> after a bent shape was
  straightened; the model carries it next to the state.
\<close>

definition modifyRedBlack :: "ptr \<Rightarrow> ptr \<Rightarrow> ptr \<Rightarrow> 'a state \<Rightarrow> error + 'a state" where
  "modifyRedBlack newNode par grandparent s =
     bindE (isRightChild (compFunc (tree s)) (nodes s) newNode) (\<lambda>nChildType.
     bindE (isRightChild (compFunc (tree s)) (nodes s) par) (\<lambda>pChildType.
     bindE (if pChildType = LEFT_CHILD then
              bindE (if nChildType = RIGHT_CHILD then
                       bindE (leftRightSwitch newNode par grandparent (nodes s)) (\<lambda>h.
                         Inr (s\<lparr>nodes := h\<rparr>, newNode))
                     else Inr (s, par)) (\<lambda>(s1, par1).
              bindE (leftLeftSwitch par1 grandparent s1) (\<lambda>s2. Inr (s2, par1)))
            else if pChildType = RIGHT_CHILD then
              bindE (if nChildType = LEFT_CHILD then
                       bindE (rightLeftSwitch newNode par grandparent (nodes s)) (\<lambda>h.
                         Inr (s\<lparr>nodes := h\<rparr>, newNode))
                     else Inr (s, par)) (\<lambda>(s1, par1).
              bindE (rightRightSwitch par1 grandparent s1) (\<lambda>s2. Inr (s2, par1)))
            else Inr (s, par)) (\<lambda>(s3, par3).
     bindE (assign (nodes s3) par3 (\<lambda>x. x\<lparr>color := BLACK\<rparr>)) (\<lambda>h1.
     bindE (assign h1 grandparent (\<lambda>x. x\<lparr>color := RED\<rparr>)) (\<lambda>h2.
       Inr (s3\<lparr>nodes := h2\<rparr>))))))"

text \<open>
  \<open>modifyNode\<close> calls itself on the grandparent; the first argument bounds the depth of
  the recursion, and running out of it is the error \<open>OutOfFuel\<close>.
\<close>

fun modifyNode :: "nat \<Rightarrow> ptr \<Rightarrow> 'a state \<Rightarrow> error + 'a state" where
  "modifyNode 0 toModify s = Inl OutOfFuel"
| "modifyNode (Suc k) toModify s =
     (if toModify = root (tree s) then
        bindE (assign (nodes s) toModify (\<lambda>x. x\<lparr>color := BLACK\<rparr>)) (\<lambda>h. Inr (s\<lparr>nodes := h\<rparr>))
      else
        bindE (deref (nodes s) toModify) (\<lambda>n.
        bindE (deref (nodes s) (parent n)) (\<lambda>p.
          if color p = BLACK then Inr s
          else
            bindE (findUncle toModify s) (\<lambda>uncle.
            bindE (if uncle \<noteq> None then
                     bindE (deref (nodes s) uncle) (\<lambda>u. Inr (color u = RED))
                   else Inr False) (\<lambda>redUncle.
              if redUncle then
                bindE (assign (nodes s) (parent n) (\<lambda>x. x\<lparr>color := BLACK\<rparr>)) (\<lambda>h1.
                bindE (assign h1 uncle (\<lambda>x. x\<lparr>color := BLACK\<rparr>)) (\<lambda>h2.
                bindE (assign h2 (parent p) (\<lambda>x. x\<lparr>color := RED\<rparr>)) (\<lambda>h3.
                  modifyNode k (parent p) (s\<lparr>nodes := h3\<rparr>))))
              else modifyRedBlack toModify (parent n) (parent p) s)))))"

subsection \<open>Insertion\<close>

fun addNewNode ::
  "nat \<Rightarrow> ptr \<Rightarrow> ptr \<Rightarrow> ('a option \<Rightarrow> 'a option \<Rightarrow> int) \<Rightarrow> 'a heap \<Rightarrow> error + (int \<times> 'a heap)" where
  "addNewNode 0 compToNode addNode cf h = Inl OutOfFuel"
| "addNewNode (Suc k) compToNode addNode cf h =
     bindE (deref h addNode) (\<lambda>an.
     bindE (deref h compToNode) (\<lambda>cn.
       let compare = cf (data an) (data cn) in
       if compare = 0 then Inr (FAILURE, h)
       else if compare < 0 then
         (if left cn = None then
            bindE (assign h compToNode (\<lambda>x. x\<lparr>left := addNode\<rparr>)) (\<lambda>h1.
            bindE (assign h1 addNode (\<lambda>x. x\<lparr>parent := compToNode\<rparr>)) (\<lambda>h2.
              Inr (SUCCESS, h2)))
          else addNewNode k (left cn) addNode cf h)
       else
         (if right cn = None then
            bindE (assign h compToNode (\<lambda>x. x\<lparr>right := addNode\<rparr>)) (\<lambda>h1.
            bindE (assign h1 addNode (\<lambda>x. x\<lparr>parent := compToNode\<rparr>)) (\<lambda>h2.
              Inr (SUCCESS, h2)))
          else addNewNode k (right cn) addNode cf h)))"

text \<open>
  \<open>malloc\<close> is outside the program: its result is an argument, \<open>None\<close> when the
  allocation fails and otherwise the address of the new block.
\<close>

definition makeNewNode :: "'a option \<Rightarrow> ptr \<Rightarrow> 'a heap \<Rightarrow> ptr \<times> 'a heap" where
  "makeNewNode d alloc h =
     (case alloc of None \<Rightarrow> (None, h)
      | Some a \<Rightarrow> (Some a, h(a \<mapsto> \<lparr>parent = None, left = None, right = None, color = RED, data = d\<rparr>)))"

definition free_mem :: "'a heap \<Rightarrow> ptr \<Rightarrow> 'a heap" where
  "free_mem h p = (case p of None \<Rightarrow> h | Some a \<Rightarrow> h(a := None))"

definition addToRBTree :: "nat \<Rightarrow> 'a state \<Rightarrow> 'a option \<Rightarrow> ptr \<Rightarrow> error + (int \<times> 'a state)" where
  "addToRBTree fuel s d alloc =
     (let (newNode, h) = makeNewNode d alloc (nodes s);
          finish = (\<lambda>s1. bindE (modifyNode fuel newNode s1) (\<lambda>s2.
                      Inr (SUCCESS, s2\<lparr>tree := (tree s2)\<lparr>size := size (tree s2) + 1\<rparr>\<rparr>)))
      in
      if newNode = None then Inr (FAILURE, s)
      else if root (tree s) = None then
        finish (s\<lparr>nodes := h, tree := (tree s)\<lparr>root := newNode\<rparr>\<rparr>)
      else
        bindE (addNewNode fuel (root (tree s)) newNode (compFunc (tree s)) h) (\<lambda>(r, h1).
          if r = 0 then Inr (FAILURE, s\<lparr>nodes := free_mem h1 newNode\<rparr>)
          else finish (s\<lparr>nodes := h1\<rparr>)))"

subsection \<open>Membership\<close>

text \<open>
  The loop of \<open>containsRBTree\<close>; the last component is the list of the comparator calls
  made so far.
\<close>

fun containsLoop ::
  "nat \<Rightarrow> ('a option \<Rightarrow> 'a option \<Rightarrow> int) \<Rightarrow> 'a heap \<Rightarrow> ptr \<Rightarrow> 'a option \<Rightarrow>
   ('a option \<times> 'a option) list \<Rightarrow> error + (int \<times> ('a option \<times> 'a option) list)" where
  "containsLoop 0 cf h curNode d calls = Inl OutOfFuel"
| "containsLoop (Suc k) cf h curNode d calls =
     (if curNode = None then Inr (FAILURE, calls)
      else
        bindE (deref h curNode) (\<lambda>n.
          if data n = None then Inr (FAILURE, calls)
          else
            (let comp = cf (data n) d; calls1 = calls @ [(data n, d)] in
             if comp = 0 then Inr (SUCCESS, calls1)
             else if comp > 0 then containsLoop k cf h (left n) d calls1
             else if comp < 0 then containsLoop k cf h (right n) d calls1
             else containsLoop k cf h curNode d calls1)))"

definition containsRBTree ::
  "nat \<Rightarrow> 'a RBTree option \<Rightarrow> 'a heap \<Rightarrow> 'a option \<Rightarrow>
   error + (int \<times> ('a option \<times> 'a option) list)" where
  "containsRBTree fuel t h d =
     (case t of None \<Rightarrow> Inr (FAILURE, [])
      | Some tr \<Rightarrow>
          if d = None \<or> root tr = None then Inr (FAILURE, [])
          else containsLoop fuel (compFunc tr) h (root tr) d [])"

subsection \<open>Traversal\<close>

text \<open>
  The visitor gets the element and the caller's context \<open>args\<close>, which it may change; it
  returns its signal.  The traversal state is the context and the list of the elements
  the visitor has been called on so far.  What the visitor did stays done when the
  traversal stops or fails, so the result is the outcome together with the state.
\<close>

type_synonym ('a, 'c) forEachFunc = "'a option \<Rightarrow> 'c \<Rightarrow> int \<times> 'c"

fun forEachNode ::
  "nat \<Rightarrow> 'a heap \<Rightarrow> ptr \<Rightarrow> ('a, 'c) forEachFunc \<Rightarrow> 'c \<times> 'a option list \<Rightarrow>
   (error + int) \<times> 'c \<times> 'a option list" where
  "forEachNode 0 h node func st = (Inl OutOfFuel, st)"
| "forEachNode (Suc k) h node func st =
     (case deref h node of
        Inl e \<Rightarrow> (Inl e, st)
      | Inr n \<Rightarrow>
          (let (r1, st1) = (if left n \<noteq> None then forEachNode k h (left n) func st
                            else (Inr SUCCESS, st))
           in case r1 of
                Inl e \<Rightarrow> (Inl e, st1)
              | Inr v1 \<Rightarrow>
                  if v1 = FAILURE then (Inr FAILURE, st1)
                  else
                    (let (r, args) = func (data n) (fst st1); st2 = (args, snd st1 @ [data n]) in
                     if r = 0 then (Inr FAILURE, st2)
                     else
                       (let (r2, st3) = (if right n \<noteq> None then forEachNode k h (right n) func st2
                                         else (Inr SUCCESS, st2))
                        in case r2 of
                             Inl e \<Rightarrow> (Inl e, st3)
                           | Inr v2 \<Rightarrow>
                               if v2 = FAILURE then (Inr FAILURE, st3) else (Inr SUCCESS, st3)))))"

definition forEachRBTree ::
  "nat \<Rightarrow> 'a RBTree option \<Rightarrow> 'a heap \<Rightarrow> ('a, 'c) forEachFunc option \<Rightarrow> 'c \<Rightarrow>
   (error + int) \<times> 'c \<times> 'a option list" where
  "forEachRBTree fuel t h func args =
     (if t = None \<or> func = None then (Inr FAILURE, args, [])
      else forEachNode fuel h (root (the t)) (the func) (args, []))"

subsection \<open>Teardown\<close>

text \<open>
  \<open>freeFunc(node->data)\<close> appends the element to the log \<open>freed\<close>; \<open>free(node)\<close> removes
  the node from the store.
\<close>

fun freeNodes :: "nat \<Rightarrow> ptr \<Rightarrow> 'a state \<Rightarrow> error + 'a state" where
  "freeNodes 0 node s = Inl OutOfFuel"
| "freeNodes (Suc k) node s =
     (if node \<noteq> None then
        bindE (deref (nodes s) node) (\<lambda>n.
        bindE (if left n \<noteq> None then freeNodes k (left n) s else Inr s) (\<lambda>s1.
        bindE (deref (nodes s1) node) (\<lambda>n1.
        bindE (if right n1 \<noteq> None then freeNodes k (right n1) s1 else Inr s1) (\<lambda>s2.
        bindE (deref (nodes s2) node) (\<lambda>n2.
        bindE (if data n2 \<noteq> None then
                 bindE (assign (nodes s2) node (\<lambda>x. x\<lparr>data := None\<rparr>)) (\<lambda>h.
                   Inr (s2\<lparr>nodes := h, freed := freed s2 @ [data n2]\<rparr>))
               else Inr s2) (\<lambda>s3.
          Inr (s3\<lparr>nodes := free_mem (nodes s3) node\<rparr>)))))))
      else Inr s)"

text \<open>
  The first argument after the fuel is what the pointer \<open>tree\<close> designates, \<open>None\<close> for
  \<open>NULL\<close>; the same holds for \<open>containsRBTree\<close> and \<open>forEachRBTree\<close>.
\<close>

definition freeRBTree :: "nat \<Rightarrow> 'a RBTree option \<Rightarrow> 'a state \<Rightarrow> error + 'a state" where
  "freeRBTree fuel t s =
     (if t \<noteq> None then
        (if root (the t) \<noteq> None then freeNodes fuel (root (the t)) s else Inr s)
      else Inr s)"

section \<open>Trees as values\<close>

text \<open>
  The tree a store represents: every node with its address, colour and element.  A
  context is the path from a subtree up to the root, one frame for each ancestor with
  the side the path comes from and the ancestor's other subtree.
\<close>

datatype 'a rbt = Leaf | Br addr Color "'a rbt" "'a option" "'a rbt"

datatype 'a frame =
  InLeft addr Color "'a option" "'a rbt"
| InRight addr Color "'a rbt" "'a option"

fun rootp :: "'a rbt \<Rightarrow> ptr" where
  "rootp Leaf = None"
| "rootp (Br a c l d r) = Some a"

fun col :: "'a rbt \<Rightarrow> Color" where
  "col Leaf = BLACK"
| "col (Br a c l d r) = c"

fun paint :: "Color \<Rightarrow> 'a rbt \<Rightarrow> 'a rbt" where
  "paint c Leaf = Leaf"
| "paint c (Br a c' l d r) = Br a c l d r"

fun addrs :: "'a rbt \<Rightarrow> addr list" where
  "addrs Leaf = []"
| "addrs (Br a c l d r) = addrs l @ a # addrs r"

fun inorder :: "'a rbt \<Rightarrow> 'a option list" where
  "inorder Leaf = []"
| "inorder (Br a c l d r) = inorder l @ d # inorder r"

fun postorder :: "'a rbt \<Rightarrow> 'a option list" where
  "postorder Leaf = []"
| "postorder (Br a c l d r) = postorder l @ postorder r @ [d]"

fun height :: "'a rbt \<Rightarrow> nat" where
  "height Leaf = 0"
| "height (Br a c l d r) = Suc (max (height l) (height r))"

fun repr :: "'a heap \<Rightarrow> ptr \<Rightarrow> 'a rbt \<Rightarrow> bool" where
  "repr h par Leaf = True"
| "repr h par (Br a c l d r) =
     (h a = Some \<lparr>parent = par, left = rootp l, right = rootp r, color = c, data = d\<rparr> \<and>
      repr h (Some a) l \<and> repr h (Some a) r)"

fun plug :: "'a rbt \<Rightarrow> 'a frame list \<Rightarrow> 'a rbt" where
  "plug t [] = t"
| "plug t (InLeft a c d r # fs) = plug (Br a c t d r) fs"
| "plug t (InRight a c l d # fs) = plug (Br a c l d t) fs"

fun faddr :: "'a frame \<Rightarrow> addr" where
  "faddr (InLeft a c d r) = a"
| "faddr (InRight a c l d) = a"

fun fcol :: "'a frame \<Rightarrow> Color" where
  "fcol (InLeft a c d r) = c"
| "fcol (InRight a c l d) = c"

fun fsib :: "'a frame \<Rightarrow> 'a rbt" where
  "fsib (InLeft a c d r) = r"
| "fsib (InRight a c l d) = l"

fun cparent :: "'a frame list \<Rightarrow> ptr" where
  "cparent [] = None"
| "cparent (f # fs) = Some (faddr f)"

fun caddrs :: "'a frame list \<Rightarrow> addr list" where
  "caddrs [] = []"
| "caddrs (f # fs) = faddr f # addrs (fsib f) @ caddrs fs"

fun crepr :: "'a heap \<Rightarrow> 'a frame list \<Rightarrow> ptr \<Rightarrow> bool" where
  "crepr h [] p = True"
| "crepr h (InLeft a c d r # fs) p =
     (h a = Some \<lparr>parent = cparent fs, left = p, right = rootp r, color = c, data = d\<rparr> \<and>
      repr h (Some a) r \<and> crepr h fs (Some a))"
| "crepr h (InRight a c l d # fs) p =
     (h a = Some \<lparr>parent = cparent fs, left = rootp l, right = p, color = c, data = d\<rparr> \<and>
      repr h (Some a) l \<and> crepr h fs (Some a))"

text \<open>The fixup of \<open>modifyNode\<close> on trees: the subtree of the node and its context.\<close>

fun fixup :: "'a rbt \<Rightarrow> 'a frame list \<Rightarrow> 'a rbt" where
  "fixup n [] = paint BLACK n"
| "fixup n [f] = plug n [f]"
| "fixup n (InLeft p pc pd ps # InLeft g gc gd u # fs) =
     (if pc = BLACK then plug n (InLeft p pc pd ps # InLeft g gc gd u # fs)
      else if col u = RED then fixup (Br g RED (Br p BLACK n pd ps) gd (paint BLACK u)) fs
      else plug (Br p BLACK n pd (Br g RED ps gd u)) fs)"
| "fixup n (InRight p pc ps pd # InLeft g gc gd u # fs) =
     (if pc = BLACK then plug n (InRight p pc ps pd # InLeft g gc gd u # fs)
      else if col u = RED then fixup (Br g RED (Br p BLACK ps pd n) gd (paint BLACK u)) fs
      else (case n of Leaf \<Rightarrow> Leaf
            | Br a nc nl nd nr \<Rightarrow> plug (Br a BLACK (Br p pc ps pd nl) nd (Br g RED nr gd u)) fs))"
| "fixup n (InLeft p pc pd ps # InRight g gc u gd # fs) =
     (if pc = BLACK then plug n (InLeft p pc pd ps # InRight g gc u gd # fs)
      else if col u = RED then fixup (Br g RED (paint BLACK u) gd (Br p BLACK n pd ps)) fs
      else (case n of Leaf \<Rightarrow> Leaf
            | Br a nc nl nd nr \<Rightarrow> plug (Br a BLACK (Br g RED u gd nl) nd (Br p pc nr pd ps)) fs))"
| "fixup n (InRight p pc ps pd # InRight g gc u gd # fs) =
     (if pc = BLACK then plug n (InRight p pc ps pd # InRight g gc u gd # fs)
      else if col u = RED then fixup (Br g RED (paint BLACK u) gd (Br p BLACK ps pd n)) fs
      else plug (Br p BLACK (Br g RED u gd ps) pd n) fs)"

text \<open>The elements and the addresses of a context, before and after its hole.\<close>

fun cbefore :: "'a frame list \<Rightarrow> 'a option list" where
  "cbefore [] = []"
| "cbefore (InLeft a c d r # fs) = cbefore fs"
| "cbefore (InRight a c l d # fs) = cbefore fs @ inorder l @ [d]"

fun cafter :: "'a frame list \<Rightarrow> 'a option list" where
  "cafter [] = []"
| "cafter (InLeft a c d r # fs) = d # inorder r @ cafter fs"
| "cafter (InRight a c l d # fs) = cafter fs"

fun abefore :: "'a frame list \<Rightarrow> addr list" where
  "abefore [] = []"
| "abefore (InLeft a c d r # fs) = abefore fs"
| "abefore (InRight a c l d # fs) = abefore fs @ addrs l @ [a]"

fun aafter :: "'a frame list \<Rightarrow> addr list" where
  "aafter [] = []"
| "aafter (InLeft a c d r # fs) = a # addrs r @ aafter fs"
| "aafter (InRight a c l d # fs) = aafter fs"

subsection \<open>The red-black invariants\<close>

text \<open>
  \<open>invc\<close>: no RED node has a RED child.  \<open>invh\<close>: at every node the paths to the absent
  children on the left and on the right pass through the same number \<open>bh\<close> of BLACK nodes.
\<close>

fun invc :: "'a rbt \<Rightarrow> bool" where
  "invc Leaf = True"
| "invc (Br a c l d r) = ((c = RED \<longrightarrow> col l = BLACK \<and> col r = BLACK) \<and> invc l \<and> invc r)"

fun bh :: "'a rbt \<Rightarrow> nat" where
  "bh Leaf = 0"
| "bh (Br a c l d r) = (if c = BLACK then Suc (bh l) else bh l)"

fun invh :: "'a rbt \<Rightarrow> bool" where
  "invh Leaf = True"
| "invh (Br a c l d r) = (bh l = bh r \<and> invh l \<and> invh r)"

text \<open>The same for a context: what the ancestors and their other subtrees have to satisfy.\<close>

fun ccol :: "'a frame list \<Rightarrow> Color" where
  "ccol [] = BLACK"
| "ccol (f # fs) = fcol f"

fun cinvc :: "'a frame list \<Rightarrow> bool" where
  "cinvc [] = True"
| "cinvc (f # fs) =
     (invc (fsib f) \<and> (fcol f = RED \<longrightarrow> col (fsib f) = BLACK \<and> ccol fs = BLACK) \<and> cinvc fs)"

fun cinvh :: "nat \<Rightarrow> 'a frame list \<Rightarrow> bool" where
  "cinvh k [] = True"
| "cinvh k (InLeft a c d r # fs) =
     (k = bh r \<and> invh r \<and> cinvh (if c = BLACK then Suc k else k) fs)"
| "cinvh k (InRight a c l d # fs) =
     (bh l = k \<and> invh l \<and> cinvh (if c = BLACK then Suc k else k) fs)"

definition rootBlack :: "'a frame list \<Rightarrow> bool" where
  "rootBlack fs = (fs = [] \<or> fcol (last fs) = BLACK)"

subsection \<open>Order\<close>

text \<open>
  A consistent comparator: the sign of \<open>cf x y\<close> is opposite to the sign of \<open>cf y x\<close>, and
  "not greater" is transitive.
\<close>

definition total_order :: "('x \<Rightarrow> 'x \<Rightarrow> int) \<Rightarrow> bool" where
  "total_order cf =
     ((\<forall>x y. (cf x y < 0) = (0 < cf y x)) \<and>
      (\<forall>x y z. cf x y \<le> 0 \<and> cf y z \<le> 0 \<longrightarrow> cf x z \<le> 0))"

definition ascending :: "('x \<Rightarrow> 'x \<Rightarrow> int) \<Rightarrow> 'x list \<Rightarrow> bool" where
  "ascending cf xs = sorted_wrt (\<lambda>x y. cf x y < 0) xs"

definition bst :: "('a option \<Rightarrow> 'a option \<Rightarrow> int) \<Rightarrow> 'a rbt \<Rightarrow> bool" where
  "bst cf t = ascending cf (inorder t)"

text \<open>
  \<open>isRightChild\<close> decides the side of a node by comparing its element with the element of
  the parent's right child.  \<open>sides_ok cf d fs\<close>: along the path \<open>fs\<close> from a node with
  element \<open>d\<close>, this comparison tells the side the node really is on.
\<close>

fun sides_ok :: "('a option \<Rightarrow> 'a option \<Rightarrow> int) \<Rightarrow> 'a option \<Rightarrow> 'a frame list \<Rightarrow> bool" where
  "sides_ok cf d [] = True"
| "sides_ok cf d (InLeft a c pd r # fs) =
     ((case r of Leaf \<Rightarrow> True | Br ra rc rl rd rr \<Rightarrow> cf rd d \<noteq> 0) \<and> sides_ok cf pd fs)"
| "sides_ok cf d (InRight a c l pd # fs) = (cf d d = 0 \<and> sides_ok cf pd fs)"

text \<open>The descent of \<open>addNewNode\<close>: the context of the absent child where the new node goes,
  or nothing when an element comparing equal is met.\<close>

fun descend ::
  "('a option \<Rightarrow> 'a option \<Rightarrow> int) \<Rightarrow> 'a option \<Rightarrow> 'a rbt \<Rightarrow> 'a frame list \<Rightarrow> 'a frame list option" where
  "descend cf x Leaf fs = Some fs"
| "descend cf x (Br a c l d r) fs =
     (if cf x d = 0 then None
      else if cf x d < 0 then descend cf x l (InLeft a c d r # fs)
      else descend cf x r (InRight a c l d # fs))"

subsection \<open>States and the trees they hold\<close>

text \<open>
  \<open>holds s t\<close>: the store of \<open>s\<close> consists of the nodes of \<open>t\<close>, each at its own address with
  the links, colour and element \<open>t\<close> gives it, and the root pointer points to the root
  of \<open>t\<close>.
\<close>

definition holds :: "'a state \<Rightarrow> 'a rbt \<Rightarrow> bool" where
  "holds s t =
     (repr (nodes s) None t \<and> root (tree s) = rootp t \<and> distinct (addrs t) \<and>
      dom (nodes s) = set (addrs t))"

text \<open>
  \<open>rbt_inv s t\<close>: the state holds the tree \<open>t\<close>, which is a red-black tree with a BLACK
  root, ordered by the state's comparator, and the count is the number of its nodes.
\<close>

definition rbt_inv :: "'a state \<Rightarrow> 'a rbt \<Rightarrow> bool" where
  "rbt_inv s t =
     (holds s t \<and> col t = BLACK \<and> invc t \<and> invh t \<and> bst (compFunc (tree s)) t \<and>
      size (tree s) = length (inorder t))"

text \<open>What no step of the fixup changes: the set of allocated addresses, the count, the
  comparator and the log of the destructor.\<close>

definition keeps :: "'a state \<Rightarrow> 'a state \<Rightarrow> bool" where
  "keeps s s' =
     (dom (nodes s') = dom (nodes s) \<and> size (tree s') = size (tree s) \<and>
      compFunc (tree s') = compFunc (tree s) \<and> freed s' = freed s)"

text \<open>
  The states a program reaches from \<open>newRBTree\<close> by calls of \<open>addToRBTree\<close>, with the
  number of the calls that returned success.  \<open>malloc\<close> fails or returns an address that
  is not in use.
\<close>

definition fresh :: "'a heap \<Rightarrow> ptr \<Rightarrow> bool" where
  "fresh h alloc = (case alloc of None \<Rightarrow> True | Some a \<Rightarrow> h a = None)"

inductive built :: "('a option \<Rightarrow> 'a option \<Rightarrow> int) \<Rightarrow> nat \<Rightarrow> 'a state \<Rightarrow> bool"
  for cf :: "'a option \<Rightarrow> 'a option \<Rightarrow> int" where
  built_new: "built cf 0 (newRBTree cf)"
| built_add: "built cf n s \<Longrightarrow> fresh (nodes s) alloc \<Longrightarrow>
     addToRBTree fuel s d alloc = Inr (r, s') \<Longrightarrow>
     built cf (if r = FAILURE then n else Suc n) s'"

text \<open>
  The same states with the elements that were inserted: \<open>inserted cf ds s\<close> says that \<open>s\<close> is
  reached from \<open>newRBTree\<close> by calls of \<open>addToRBTree\<close>, and that \<open>ds\<close> lists, in the order of
  the calls, the arguments of the calls that returned success.
\<close>

inductive inserted :: "('a option \<Rightarrow> 'a option \<Rightarrow> int) \<Rightarrow> 'a option list \<Rightarrow> 'a state \<Rightarrow> bool"
  for cf :: "'a option \<Rightarrow> 'a option \<Rightarrow> int" where
  inserted_new: "inserted cf [] (newRBTree cf)"
| inserted_add: "inserted cf ds s \<Longrightarrow> fresh (nodes s) alloc \<Longrightarrow>
     addToRBTree fuel s d alloc = Inr (r, s') \<Longrightarrow>
     inserted cf (if r = FAILURE then ds else ds @ [d]) s'"

subsection \<open>Traversal, membership and teardown on trees\<close>

text \<open>
  \<open>visit\<close> calls the visitor on the elements of a list in order, up to and including the
  first one on which it returns \<open>0\<close>; \<open>signals\<close> lists what the visitor returns on every
  element of the list when none of them stops it.
\<close>

fun visit ::
  "('a, 'c) forEachFunc \<Rightarrow> 'a option list \<Rightarrow> 'c \<times> 'a option list \<Rightarrow> int \<times> 'c \<times> 'a option list" where
  "visit func [] st = (SUCCESS, st)"
| "visit func (x # xs) st =
     (let (r, args) = func x (fst st); st' = (args, snd st @ [x]) in
      if r = 0 then (FAILURE, st') else visit func xs st')"

fun signals :: "('a, 'c) forEachFunc \<Rightarrow> 'a option list \<Rightarrow> 'c \<Rightarrow> int list" where
  "signals func [] args = []"
| "signals func (x # xs) args = (let (r, args') = func x args in r # signals func xs args')"

text \<open>The search of \<open>containsRBTree\<close>: it gives up at a node that holds \<open>NULL\<close>.\<close>

fun lookup :: "('a option \<Rightarrow> 'a option \<Rightarrow> int) \<Rightarrow> 'a option \<Rightarrow> 'a rbt \<Rightarrow> bool" where
  "lookup cf x Leaf = False"
| "lookup cf x (Br a c l d r) =
     (d \<noteq> None \<and> (cf d x = 0 \<or> (if cf d x > 0 then lookup cf x l else lookup cf x r)))"

text \<open>The elements that the store of a state holds.\<close>

definition elements :: "'a state \<Rightarrow> 'a option set" where
  "elements s = data ` ran (nodes s)"

subsection \<open>One level of the fixup\<close>

text \<open>
  \<open>modifyStep\<close> is the body of \<open>modifyNode\<close> up to its recursive call: it ends with the
  final state, or with the grandparent and the state the recursive call starts from.
  \<open>shape\<close> is \<open>repr\<close> without the colours.
\<close>

definition modifyStep :: "ptr \<Rightarrow> 'a state \<Rightarrow> error + ('a state + ptr \<times> 'a state)" where
  "modifyStep toModify s =
     (if toModify = root (tree s) then
        bindE (assign (nodes s) toModify (\<lambda>x. x\<lparr>color := BLACK\<rparr>)) (\<lambda>h. Inr (Inl (s\<lparr>nodes := h\<rparr>)))
      else
        bindE (deref (nodes s) toModify) (\<lambda>n.
        bindE (deref (nodes s) (parent n)) (\<lambda>p.
          if color p = BLACK then Inr (Inl s)
          else
            bindE (findUncle toModify s) (\<lambda>uncle.
            bindE (if uncle \<noteq> None then
                     bindE (deref (nodes s) uncle) (\<lambda>u. Inr (color u = RED))
                   else Inr False) (\<lambda>redUncle.
              if redUncle then
                bindE (assign (nodes s) (parent n) (\<lambda>x. x\<lparr>color := BLACK\<rparr>)) (\<lambda>h1.
                bindE (assign h1 uncle (\<lambda>x. x\<lparr>color := BLACK\<rparr>)) (\<lambda>h2.
                bindE (assign h2 (parent p) (\<lambda>x. x\<lparr>color := RED\<rparr>)) (\<lambda>h3.
                  Inr (Inr (parent p, s\<lparr>nodes := h3\<rparr>)))))
              else bindE (modifyRedBlack toModify (parent n) (parent p) s) (\<lambda>s'. Inr (Inl s')))))))"

fun shape :: "'a heap \<Rightarrow> ptr \<Rightarrow> 'a rbt \<Rightarrow> bool" where
  "shape h par Leaf = True"
| "shape h par (Br a c l d r) =
     ((case h a of None \<Rightarrow> False
       | Some n \<Rightarrow> parent n = par \<and> left n = rootp l \<and> right n = rootp r \<and> data n = d) \<and>
      shape h (Some a) l \<and> shape h (Some a) r)"

subsection \<open>Stores closed under their links\<close>

text \<open>
  A set \<open>D\<close> of addresses is closed in a store when every address of \<open>D\<close> holds a node
  whose three links are \<open>NULL\<close> or in \<open>D\<close>: following links from \<open>D\<close> never leaves the
  allocated nodes.  \<open>returns P m\<close>: the step \<open>m\<close> returns, with a result that satisfies \<open>P\<close>.
\<close>

definition valid_in :: "addr set \<Rightarrow> ptr \<Rightarrow> bool" where
  "valid_in D p = (case p of None \<Rightarrow> False | Some a \<Rightarrow> a \<in> D)"

definition null_or_valid :: "addr set \<Rightarrow> ptr \<Rightarrow> bool" where
  "null_or_valid D p = (case p of None \<Rightarrow> True | Some a \<Rightarrow> a \<in> D)"

definition links_in :: "addr set \<Rightarrow> 'a Node \<Rightarrow> bool" where
  "links_in D n =
     (null_or_valid D (parent n) \<and> null_or_valid D (left n) \<and> null_or_valid D (right n))"

definition links_closed :: "addr set \<Rightarrow> 'a heap \<Rightarrow> bool" where
  "links_closed D h =
     (\<forall>a. a \<in> D \<longrightarrow> (case h a of None \<Rightarrow> False | Some n \<Rightarrow> links_in D n))"

definition returns :: "('x \<Rightarrow> bool) \<Rightarrow> error + 'x \<Rightarrow> bool" where
  "returns P m = (case m of Inl e \<Rightarrow> False | Inr x \<Rightarrow> P x)"

subsection \<open>A comparator for the examples\<close>

text \<open>Natural numbers in their order, the \<open>NULL\<close> element below all of them.\<close>

definition natCompare :: "nat option \<Rightarrow> nat option \<Rightarrow> int" where
  "natCompare x y =
     (case x of None \<Rightarrow> (case y of None \<Rightarrow> 0 | Some b \<Rightarrow> - 1)
      | Some a \<Rightarrow> (case y of None \<Rightarrow> 1 | Some b \<Rightarrow> int a - int b))"

text \<open>The state after the teardown of the tree \<open>t\<close>: its nodes are gone from the store, and
  the destructor has been called on its elements other than \<open>NULL\<close>, in post-order.\<close>

definition released :: "'a rbt \<Rightarrow> 'a state \<Rightarrow> 'a state" where
  "released t s =
     s\<lparr>nodes := nodes s |` (- set (addrs t)),
       freed := freed s @ filter (\<lambda>d. d \<noteq> None) (postorder t)\<rparr>"

text \<open>The count, the comparator and the log of the destructor are the same in both states.\<close>

definition meta_eq :: "'a state \<Rightarrow> 'a state \<Rightarrow> bool" where
  "meta_eq s s' =
     (size (tree s') = size (tree s) \<and> compFunc (tree s') = compFunc (tree s) \<and>
      freed s' = freed s)"

subsection \<open>Example states\<close>

text \<open>
  The states after inserting 10, then 20, then 30 at the addresses 1, 2 and 3 (the third
  insertion rotates: 20 becomes the BLACK root with 10 and 30 as RED children), and after
  inserting the \<open>NULL\<close> element and then 5.
\<close>

definition ex10 :: "nat state" where
  "ex10 =
     \<lparr>nodes = Map.empty(1 \<mapsto> \<lparr>parent = None, left = None, right = None, color = BLACK, data = Some 10\<rparr>),
      tree = \<lparr>root = Some 1, compFunc = natCompare, size = 1\<rparr>, freed = []\<rparr>"

definition ex10_20 :: "nat state" where
  "ex10_20 =
     \<lparr>nodes = Map.empty(1 \<mapsto> \<lparr>parent = None, left = None, right = Some 2, color = BLACK, data = Some 10\<rparr>,
                        2 \<mapsto> \<lparr>parent = Some 1, left = None, right = None, color = RED, data = Some 20\<rparr>),
      tree = \<lparr>root = Some 1, compFunc = natCompare, size = 2\<rparr>, freed = []\<rparr>"

definition ex10_20_30 :: "nat state" where
  "ex10_20_30 =
     \<lparr>nodes = Map.empty(1 \<mapsto> \<lparr>parent = Some 2, left = None, right = None, color = RED, data = Some 10\<rparr>,
                        2 \<mapsto> \<lparr>parent = None, left = Some 1, right = Some 3, color = BLACK, data = Some 20\<rparr>,
                        3 \<mapsto> \<lparr>parent = Some 2, left = None, right = None, color = RED, data = Some 30\<rparr>),
      tree = \<lparr>root = Some 2, compFunc = natCompare, size = 3\<rparr>, freed = []\<rparr>"

definition tr10_20_30 :: "nat rbt" where
  "tr10_20_30 = Br 2 BLACK (Br 1 RED Leaf (Some 10) Leaf) (Some 20) (Br 3 RED Leaf (Some 30) Leaf)"

definition exNull :: "nat state" where
  "exNull =
     \<lparr>nodes = Map.empty(1 \<mapsto> \<lparr>parent = None, left = None, right = None, color = BLACK, data = None\<rparr>),
      tree = \<lparr>root = Some 1, compFunc = natCompare, size = 1\<rparr>, freed = []\<rparr>"

definition exNull_5 :: "nat state" where
  "exNull_5 =
     \<lparr>nodes = Map.empty(1 \<mapsto> \<lparr>parent = None, left = None, right = Some 2, color = BLACK, data = None\<rparr>,
                        2 \<mapsto> \<lparr>parent = Some 1, left = None, right = None, color = RED, data = Some 5\<rparr>),
      tree = \<lparr>root = Some 1, compFunc = natCompare, size = 2\<rparr>, freed = []\<rparr>"

text \<open>
  The state in which \<open>addToRBTree\<close> calls \<open>modifyNode\<close> when 40 is inserted at address 4
  after 10, 20 and 30: the new RED node hangs below the RED node of 30, whose sibling is
  the RED node of 10.  \<open>recolored40\<close> is the state after the fixup, which recolours 30 and
  10, moves to the root and leaves it BLACK.
\<close>

definition pending40 :: "nat state" where
  "pending40 =
     \<lparr>nodes = Map.empty(1 \<mapsto> \<lparr>parent = Some 2, left = None, right = None, color = RED, data = Some 10\<rparr>,
                        2 \<mapsto> \<lparr>parent = None, left = Some 1, right = Some 3, color = BLACK, data = Some 20\<rparr>,
                        3 \<mapsto> \<lparr>parent = Some 2, left = None, right = Some 4, color = RED, data = Some 30\<rparr>,
                        4 \<mapsto> \<lparr>parent = Some 3, left = None, right = None, color = RED, data = Some 40\<rparr>),
      tree = \<lparr>root = Some 2, compFunc = natCompare, size = 3\<rparr>, freed = []\<rparr>"

definition recolored40 :: "nat state" where
  "recolored40 =
     \<lparr>nodes = Map.empty(1 \<mapsto> \<lparr>parent = Some 2, left = None, right = None, color = BLACK, data = Some 10\<rparr>,
                        2 \<mapsto> \<lparr>parent = None, left = Some 1, right = Some 3, color = BLACK, data = Some 20\<rparr>,
                        3 \<mapsto> \<lparr>parent = Some 2, left = None, right = Some 4, color = BLACK, data = Some 30\<rparr>,
                        4 \<mapsto> \<lparr>parent = Some 3, left = None, right = None, color = RED, data = Some 40\<rparr>),
      tree = \<lparr>root = Some 2, compFunc = natCompare, size = 3\<rparr>, freed = []\<rparr>"

text \<open>
  A store that no call of \<open>addToRBTree\<close> leaves behind: the root is RED and has a RED child.
\<close>

definition redRoot :: "nat state" where
  "redRoot =
     \<lparr>nodes = Map.empty(1 \<mapsto> \<lparr>parent = None, left = None, right = Some 2, color = RED, data = Some 10\<rparr>,
                        2 \<mapsto> \<lparr>parent = Some 1, left = None, right = None, color = RED, data = Some 20\<rparr>),
      tree = \<lparr>root = Some 1, compFunc = natCompare, size = 2\<rparr>, freed = []\<rparr>"
section \<open>Basic facts about the store\<close>

lemma bindE_Inr [simp]: "bindE (Inr x) f = f x"
  by (simp add: bindE_def)

lemma bindE_Inl [simp]: "bindE (Inl e) f = Inl e"
  by (simp add: bindE_def)

lemma deref_None [simp]: "deref h None = Inl NullDeref"
  by (simp add: deref_def)

lemma deref_Some: "h a = Some n \<Longrightarrow> deref h (Some a) = Inr n"
  by (simp add: deref_def)

lemma assign_None [simp]: "assign h None f = Inl NullDeref"
  by (simp add: assign_def)

lemma assign_Some: "h a = Some n \<Longrightarrow> assign h (Some a) f = Inr (h(a \<mapsto> f n))"
  by (simp add: assign_def)

section \<open>Trees, contexts and the store\<close>

lemma rootp_plug: "rootp (plug t fs) = (if fs = [] then rootp t else Some (faddr (last fs)))"
  by (induction t fs rule: plug.induct) auto

lemma repr_plug: "repr h None (plug t fs) = (repr h (cparent fs) t \<and> crepr h fs (rootp t))"
proof (induction fs arbitrary: t)
  case Nil
  then show ?case by simp
next
  case (Cons f fs)
  then show ?case by (cases f) (auto)
qed

lemma inorder_plug: "inorder (plug t fs) = cbefore fs @ inorder t @ cafter fs"
  by (induction t fs rule: plug.induct) auto

lemma addrs_plug: "addrs (plug t fs) = abefore fs @ addrs t @ aafter fs"
  by (induction t fs rule: plug.induct) auto

lemma set_caddrs: "set (caddrs fs) = set (abefore fs) \<union> set (aafter fs)"
  by (induction fs rule: abefore.induct) auto

lemma distinct_plug:
  "distinct (addrs (plug t fs)) =
     (distinct (addrs t) \<and> distinct (caddrs fs) \<and> set (addrs t) \<inter> set (caddrs fs) = {})"
  by (induction t fs rule: plug.induct) auto

lemma repr_frame: "(\<And>a. a \<in> set (addrs t) \<Longrightarrow> h' a = h a) \<Longrightarrow> repr h' par t = repr h par t"
  by (induction t arbitrary: par) auto

lemma repr_upd [simp]: "a \<notin> set (addrs t) \<Longrightarrow> repr (h(a := v)) par t = repr h par t"
  by (rule repr_frame) auto

lemma crepr_frame: "(\<And>a. a \<in> set (caddrs fs) \<Longrightarrow> h' a = h a) \<Longrightarrow> crepr h' fs p = crepr h fs p"
  by (induction h fs p rule: crepr.induct) (auto simp: repr_frame[of _ h'])

lemma crepr_upd [simp]: "a \<notin> set (caddrs fs) \<Longrightarrow> crepr (h(a := v)) fs p = crepr h fs p"
  by (rule crepr_frame) auto

lemma insert_dom [simp]: "h a \<noteq> None \<Longrightarrow> insert a (dom h) = dom h"
  by auto

section \<open>The rotations on the store\<close>

lemmas sw_defs = deref_def assign_def keeps_def isRightChild_def RIGHT_CHILD_def LEFT_CHILD_def
lemmas zip_simps = repr_plug distinct_plug rootp_plug

lemma leftRightSwitch_repr:
  assumes "repr h par (Br g gc (Br p pc ps pd (Br n nc nl nd nr)) gd u)"
      and "distinct (addrs (Br g gc (Br p pc ps pd (Br n nc nl nd nr)) gd u))"
  shows "\<exists>h'. leftRightSwitch (Some n) (Some p) (Some g) h = Inr h' \<and>
           repr h' par (Br g gc (Br n nc (Br p pc ps pd nl) nd nr) gd u) \<and>
           (\<forall>x. x \<notin> set (addrs (Br g gc (Br p pc ps pd (Br n nc nl nd nr)) gd u)) \<longrightarrow> h' x = h x) \<and>
           dom h' = dom h"
  using assms
  apply (cases nl)
   apply clarsimp
   apply (simp add: leftRightSwitch_def sw_defs)
  apply clarsimp
  apply (simp add: leftRightSwitch_def sw_defs)
  done

lemma rightLeftSwitch_repr:
  assumes "repr h par (Br g gc u gd (Br p pc (Br n nc nl nd nr) pd ps))"
      and "distinct (addrs (Br g gc u gd (Br p pc (Br n nc nl nd nr) pd ps)))"
  shows "\<exists>h'. rightLeftSwitch (Some n) (Some p) (Some g) h = Inr h' \<and>
           repr h' par (Br g gc u gd (Br n nc nl nd (Br p pc nr pd ps))) \<and>
           (\<forall>x. x \<notin> set (addrs (Br g gc u gd (Br p pc (Br n nc nl nd nr) pd ps))) \<longrightarrow> h' x = h x) \<and>
           dom h' = dom h"
  using assms
  apply (cases nr)
   apply clarsimp
   apply (simp add: rightLeftSwitch_def sw_defs)
  apply clarsimp
  apply (simp add: rightLeftSwitch_def sw_defs)
  done

lemma leftLeftSwitch_repr:
  assumes "repr (nodes s) None (plug (Br g gc (Br p pc pl pd pr) gd u) fs)"
      and "root (tree s) = rootp (plug (Br g gc (Br p pc pl pd pr) gd u) fs)"
      and "distinct (addrs (plug (Br g gc (Br p pc pl pd pr) gd u) fs))"
      and "sides_ok (compFunc (tree s)) gd fs"
  shows "\<exists>s'. leftLeftSwitch (Some p) (Some g) s = Inr s' \<and>
           repr (nodes s') None (plug (Br p pc pl pd (Br g gc pr gd u)) fs) \<and>
           root (tree s') = rootp (plug (Br p pc pl pd (Br g gc pr gd u)) fs) \<and>
           keeps s s'"
proof (cases fs)
  case Nil
  with assms show ?thesis
    apply (cases pr)
     apply (clarsimp simp: zip_simps)
     apply (simp add: leftLeftSwitch_def sw_defs)
    apply (clarsimp simp: zip_simps)
    apply (simp add: leftLeftSwitch_def sw_defs)
    done
next
  case (Cons f fs')
  show ?thesis
  proof (cases f)
    case (InLeft a c d r)
    with Cons assms show ?thesis
      apply (cases pr; cases r)
         apply (clarsimp simp: zip_simps)
         apply (simp add: leftLeftSwitch_def sw_defs)
        apply (clarsimp simp: zip_simps)
        apply (simp add: leftLeftSwitch_def sw_defs)
       apply (clarsimp simp: zip_simps)
       apply (simp add: leftLeftSwitch_def sw_defs)
      apply (clarsimp simp: zip_simps)
      apply (simp add: leftLeftSwitch_def sw_defs)
      done
  next
    case (InRight a c l d)
    with Cons assms show ?thesis
      apply (cases pr)
       apply (clarsimp simp: zip_simps)
       apply (simp add: leftLeftSwitch_def sw_defs)
      apply (clarsimp simp: zip_simps)
      apply (simp add: leftLeftSwitch_def sw_defs)
      done
  qed
qed

lemma rightRightSwitch_repr:
  assumes "repr (nodes s) None (plug (Br g gc u gd (Br p pc pl pd pr)) fs)"
      and "root (tree s) = rootp (plug (Br g gc u gd (Br p pc pl pd pr)) fs)"
      and "distinct (addrs (plug (Br g gc u gd (Br p pc pl pd pr)) fs))"
      and "sides_ok (compFunc (tree s)) gd fs"
  shows "\<exists>s'. rightRightSwitch (Some p) (Some g) s = Inr s' \<and>
           repr (nodes s') None (plug (Br p pc (Br g gc u gd pl) pd pr) fs) \<and>
           root (tree s') = rootp (plug (Br p pc (Br g gc u gd pl) pd pr) fs) \<and>
           keeps s s'"
proof (cases fs)
  case Nil
  with assms show ?thesis
    apply (cases pl)
     apply (clarsimp simp: zip_simps)
     apply (simp add: rightRightSwitch_def sw_defs)
    apply (clarsimp simp: zip_simps)
    apply (simp add: rightRightSwitch_def sw_defs)
    done
next
  case (Cons f fs')
  show ?thesis
  proof (cases f)
    case (InLeft a c d r)
    with Cons assms show ?thesis
      apply (cases pl; cases r)
         apply (clarsimp simp: zip_simps)
         apply (simp add: rightRightSwitch_def sw_defs)
        apply (clarsimp simp: zip_simps)
        apply (simp add: rightRightSwitch_def sw_defs)
       apply (clarsimp simp: zip_simps)
       apply (simp add: rightRightSwitch_def sw_defs)
      apply (clarsimp simp: zip_simps)
      apply (simp add: rightRightSwitch_def sw_defs)
      done
  next
    case (InRight a c l d)
    with Cons assms show ?thesis
      apply (cases pl)
       apply (clarsimp simp: zip_simps)
       apply (simp add: rightRightSwitch_def sw_defs)
      apply (clarsimp simp: zip_simps)
      apply (simp add: rightRightSwitch_def sw_defs)
      done
  qed
qed

lemma assign_color_focus:
  assumes "repr h None (plug (Br a c l d r) fs)"
      and "distinct (addrs (plug (Br a c l d r) fs))"
  shows "\<exists>h'. assign h (Some a) (\<lambda>x. x\<lparr>color := c'\<rparr>) = Inr h' \<and>
           repr h' None (plug (Br a c' l d r) fs) \<and> dom h' = dom h"
proof (cases fs)
  case Nil
  with assms show ?thesis
    by (clarsimp simp: zip_simps sw_defs)
next
  case (Cons f fs')
  with assms show ?thesis
    apply (cases f)
     apply (clarsimp simp: zip_simps)
     apply (simp add: sw_defs)
    apply (clarsimp simp: zip_simps)
    apply (simp add: sw_defs)
    done
qed

lemma isRightChild_left:
  assumes "repr h None (plug (Br pa pc (Br a c l d r) pd sib) fs)"
      and "case sib of Leaf \<Rightarrow> True | Br ra rc rl rd rr \<Rightarrow> cf rd d \<noteq> 0"
  shows "isRightChild cf h (Some a) = Inr LEFT_CHILD"
  using assms by (cases sib) (simp_all add: repr_plug sw_defs)

lemma isRightChild_right:
  assumes "repr h None (plug (Br pa pc sib pd (Br a c l d r)) fs)" and "cf d d = 0"
  shows "isRightChild cf h (Some a) = Inr RIGHT_CHILD"
  using assms by (simp add: repr_plug sw_defs)

section \<open>The four shapes of \<open>modifyRedBlack\<close>\<close>

lemma child_consts [simp]: "LEFT_CHILD \<noteq> RIGHT_CHILD" "RIGHT_CHILD \<noteq> LEFT_CHILD"
  by (simp_all add: LEFT_CHILD_def RIGHT_CHILD_def)

lemma keeps_nodes: "keeps s s1 \<Longrightarrow> dom h = dom (nodes s1) \<Longrightarrow> keeps s (s1\<lparr>nodes := h\<rparr>)"
  by (simp add: keeps_def)

lemma modifyRedBlack_LL:
  fixes n :: "'a rbt"
  assumes n: "n = Br a nc nl nd nr"
      and r: "repr (nodes s) None (plug n (InLeft p pc pd ps # InLeft g gc gd u # fs))"
      and rt: "root (tree s) = rootp (plug n (InLeft p pc pd ps # InLeft g gc gd u # fs))"
      and d: "distinct (addrs (plug n (InLeft p pc pd ps # InLeft g gc gd u # fs)))"
      and so: "sides_ok (compFunc (tree s)) nd (InLeft p pc pd ps # InLeft g gc gd u # fs)"
  shows "\<exists>s'. modifyRedBlack (Some a) (Some p) (Some g) s = Inr s' \<and>
           repr (nodes s') None (plug (Br p BLACK n pd (Br g RED ps gd u)) fs) \<and>
           root (tree s') = rootp (plug (Br p BLACK n pd (Br g RED ps gd u)) fs) \<and>
           keeps s s'"
proof -
  have ns: "isRightChild (compFunc (tree s)) (nodes s) (Some a) = Inr LEFT_CHILD"
    using isRightChild_left [of "nodes s" p pc a nc nl nd nr pd ps "InLeft g gc gd u # fs" "compFunc (tree s)"] r so n
    by simp
  have ps: "isRightChild (compFunc (tree s)) (nodes s) (Some p) = Inr LEFT_CHILD"
    using isRightChild_left [of "nodes s" g gc p pc n pd ps gd u fs "compFunc (tree s)"] r so
    by simp
  obtain s1 where s1: "leftLeftSwitch (Some p) (Some g) s = Inr s1"
      "repr (nodes s1) None (plug (Br p pc n pd (Br g gc ps gd u)) fs)"
      "root (tree s1) = rootp (plug (Br p pc n pd (Br g gc ps gd u)) fs)" "keeps s s1"
    using leftLeftSwitch_repr [of s g gc p pc n pd ps gd u fs] r rt d so by auto
  have d1: "distinct (addrs (plug (Br p pc n pd (Br g gc ps gd u)) fs))"
    using d by (simp add: addrs_plug)
  obtain h2 where h2: "assign (nodes s1) (Some p) (\<lambda>x. x\<lparr>color := BLACK\<rparr>) = Inr h2"
      "repr h2 None (plug (Br p BLACK n pd (Br g gc ps gd u)) fs)" "dom h2 = dom (nodes s1)"
    using assign_color_focus [OF s1(2) d1] by blast
  have d2: "distinct (addrs (plug (Br g gc ps gd u) (InRight p BLACK n pd # fs)))"
    using d by (simp add: addrs_plug)
  obtain h3 where h3: "assign h2 (Some g) (\<lambda>x. x\<lparr>color := RED\<rparr>) = Inr h3"
      "repr h3 None (plug (Br g RED ps gd u) (InRight p BLACK n pd # fs))" "dom h3 = dom h2"
    using assign_color_focus [of h2 g gc ps gd u "InRight p BLACK n pd # fs" RED] h2(2) d2 by auto
  have "modifyRedBlack (Some a) (Some p) (Some g) s = Inr (s1\<lparr>nodes := h3\<rparr>)"
    by (simp add: modifyRedBlack_def ns ps s1(1) h2(1) h3(1))
  moreover have "keeps s (s1\<lparr>nodes := h3\<rparr>)"
    using s1(4) h2(3) h3(3) by (simp add: keeps_nodes)
  ultimately show ?thesis
    using h3(2) s1(3) by (simp add: rootp_plug)
qed


lemma modifyRedBlack_RR:
  assumes n: "n = Br a nc nl nd nr"
      and r: "repr (nodes s) None (plug n (InRight p pc ps pd # InRight g gc u gd # fs))"
      and rt: "root (tree s) = rootp (plug n (InRight p pc ps pd # InRight g gc u gd # fs))"
      and d: "distinct (addrs (plug n (InRight p pc ps pd # InRight g gc u gd # fs)))"
      and so: "sides_ok (compFunc (tree s)) nd (InRight p pc ps pd # InRight g gc u gd # fs)"
  shows "\<exists>s'. modifyRedBlack (Some a) (Some p) (Some g) s = Inr s' \<and>
           repr (nodes s') None (plug (Br p BLACK (Br g RED u gd ps) pd n) fs) \<and>
           root (tree s') = rootp (plug (Br p BLACK (Br g RED u gd ps) pd n) fs) \<and>
           keeps s s'"
proof -
  have ns: "isRightChild (compFunc (tree s)) (nodes s) (Some a) = Inr RIGHT_CHILD"
    using isRightChild_right [of "nodes s" p pc ps pd a nc nl nd nr "InRight g gc u gd # fs" "compFunc (tree s)"] r so n
    by simp
  have ps: "isRightChild (compFunc (tree s)) (nodes s) (Some p) = Inr RIGHT_CHILD"
    using isRightChild_right [of "nodes s" g gc u gd p pc ps pd n fs "compFunc (tree s)"] r so
    by simp
  obtain s1 where s1: "rightRightSwitch (Some p) (Some g) s = Inr s1"
      "repr (nodes s1) None (plug (Br p pc (Br g gc u gd ps) pd n) fs)"
      "root (tree s1) = rootp (plug (Br p pc (Br g gc u gd ps) pd n) fs)" "keeps s s1"
    using rightRightSwitch_repr [of s g gc u gd p pc ps pd n fs] r rt d so by auto
  have d1: "distinct (addrs (plug (Br p pc (Br g gc u gd ps) pd n) fs))"
    using d by (simp add: addrs_plug)
  obtain h2 where h2: "assign (nodes s1) (Some p) (\<lambda>x. x\<lparr>color := BLACK\<rparr>) = Inr h2"
      "repr h2 None (plug (Br p BLACK (Br g gc u gd ps) pd n) fs)" "dom h2 = dom (nodes s1)"
    using assign_color_focus [OF s1(2) d1] by blast
  have d2: "distinct (addrs (plug (Br g gc u gd ps) (InLeft p BLACK pd n # fs)))"
    using d by (simp add: addrs_plug)
  obtain h3 where h3: "assign h2 (Some g) (\<lambda>x. x\<lparr>color := RED\<rparr>) = Inr h3"
      "repr h3 None (plug (Br g RED u gd ps) (InLeft p BLACK pd n # fs))" "dom h3 = dom h2"
    using assign_color_focus [of h2 g gc u gd ps "InLeft p BLACK pd n # fs" RED] h2(2) d2 by auto
  have "modifyRedBlack (Some a) (Some p) (Some g) s = Inr (s1\<lparr>nodes := h3\<rparr>)"
    by (simp add: modifyRedBlack_def ns ps s1(1) h2(1) h3(1))
  moreover have "keeps s (s1\<lparr>nodes := h3\<rparr>)"
    using s1(4) h2(3) h3(3) by (simp add: keeps_nodes)
  ultimately show ?thesis
    using h3(2) s1(3) by (simp add: rootp_plug)
qed

lemma modifyRedBlack_LR:
  assumes r: "repr (nodes s) None (plug (Br a nc nl nd nr) (InRight p pc ps pd # InLeft g gc gd u # fs))"
      and rt: "root (tree s) = rootp (plug (Br a nc nl nd nr) (InRight p pc ps pd # InLeft g gc gd u # fs))"
      and d: "distinct (addrs (plug (Br a nc nl nd nr) (InRight p pc ps pd # InLeft g gc gd u # fs)))"
      and so: "sides_ok (compFunc (tree s)) nd (InRight p pc ps pd # InLeft g gc gd u # fs)"
  shows "\<exists>s'. modifyRedBlack (Some a) (Some p) (Some g) s = Inr s' \<and>
           repr (nodes s') None (plug (Br a BLACK (Br p pc ps pd nl) nd (Br g RED nr gd u)) fs) \<and>
           root (tree s') = rootp (plug (Br a BLACK (Br p pc ps pd nl) nd (Br g RED nr gd u)) fs) \<and>
           keeps s s'"
proof -
  let ?G = "Br g gc (Br p pc ps pd (Br a nc nl nd nr)) gd u"
  let ?G1 = "Br g gc (Br a nc (Br p pc ps pd nl) nd nr) gd u"
  have ns: "isRightChild (compFunc (tree s)) (nodes s) (Some a) = Inr RIGHT_CHILD"
    using isRightChild_right [of "nodes s" p pc ps pd a nc nl nd nr "InLeft g gc gd u # fs" "compFunc (tree s)"] r so
    by simp
  have ps: "isRightChild (compFunc (tree s)) (nodes s) (Some p) = Inr LEFT_CHILD"
    using isRightChild_left [of "nodes s" g gc p pc ps pd "Br a nc nl nd nr" gd u fs "compFunc (tree s)"] r so
    by simp
  have rG: "repr (nodes s) (cparent fs) ?G" and cG: "crepr (nodes s) fs (Some g)"
    using r by (simp_all add: repr_plug)
  have dG: "distinct (addrs ?G)" and dj: "set (addrs ?G) \<inter> set (caddrs fs) = {}"
    using d by (simp_all add: distinct_plug)
  obtain h1 where h1: "leftRightSwitch (Some a) (Some p) (Some g) (nodes s) = Inr h1"
      "repr h1 (cparent fs) ?G1" "\<forall>x. x \<notin> set (addrs ?G) \<longrightarrow> h1 x = nodes s x"
      "dom h1 = dom (nodes s)"
    using leftRightSwitch_repr [OF rG dG] by blast
  have "crepr h1 fs (Some g) = crepr (nodes s) fs (Some g)"
    using h1(3) dj by (intro crepr_frame) blast
  then have r1: "repr (nodes (s\<lparr>nodes := h1\<rparr>)) None (plug ?G1 fs)"
    using h1(2) cG by (simp add: repr_plug)
  have rt1: "root (tree (s\<lparr>nodes := h1\<rparr>)) = rootp (plug ?G1 fs)"
    using rt by (simp add: rootp_plug)
  have d1: "distinct (addrs (plug ?G1 fs))"
    using d by (simp add: addrs_plug)
  obtain s2 where s2: "leftLeftSwitch (Some a) (Some g) (s\<lparr>nodes := h1\<rparr>) = Inr s2"
      "repr (nodes s2) None (plug (Br a nc (Br p pc ps pd nl) nd (Br g gc nr gd u)) fs)"
      "root (tree s2) = rootp (plug (Br a nc (Br p pc ps pd nl) nd (Br g gc nr gd u)) fs)"
      "keeps (s\<lparr>nodes := h1\<rparr>) s2"
    using leftLeftSwitch_repr [OF r1 rt1 d1] so by auto
  have d2: "distinct (addrs (plug (Br a nc (Br p pc ps pd nl) nd (Br g gc nr gd u)) fs))"
    using d by (simp add: addrs_plug)
  obtain h3 where h3: "assign (nodes s2) (Some a) (\<lambda>x. x\<lparr>color := BLACK\<rparr>) = Inr h3"
      "repr h3 None (plug (Br a BLACK (Br p pc ps pd nl) nd (Br g gc nr gd u)) fs)"
      "dom h3 = dom (nodes s2)"
    using assign_color_focus [OF s2(2) d2] by blast
  have d3: "distinct (addrs (plug (Br g gc nr gd u) (InRight a BLACK (Br p pc ps pd nl) nd # fs)))"
    using d by (simp add: addrs_plug)
  obtain h4 where h4: "assign h3 (Some g) (\<lambda>x. x\<lparr>color := RED\<rparr>) = Inr h4"
      "repr h4 None (plug (Br g RED nr gd u) (InRight a BLACK (Br p pc ps pd nl) nd # fs))"
      "dom h4 = dom h3"
    using assign_color_focus [of h3 g gc nr gd u "InRight a BLACK (Br p pc ps pd nl) nd # fs" RED]
      h3(2) d3 by auto
  have "modifyRedBlack (Some a) (Some p) (Some g) s = Inr (s2\<lparr>nodes := h4\<rparr>)"
    by (simp add: modifyRedBlack_def ns ps h1(1) s2(1) h3(1) h4(1))
  moreover have "keeps s (s2\<lparr>nodes := h4\<rparr>)"
    using s2(4) h1(4) h3(3) h4(3) by (simp add: keeps_def)
  ultimately show ?thesis
    using h4(2) s2(3) by (simp add: rootp_plug)
qed

lemma modifyRedBlack_RL:
  assumes r: "repr (nodes s) None (plug (Br a nc nl nd nr) (InLeft p pc pd ps # InRight g gc u gd # fs))"
      and rt: "root (tree s) = rootp (plug (Br a nc nl nd nr) (InLeft p pc pd ps # InRight g gc u gd # fs))"
      and d: "distinct (addrs (plug (Br a nc nl nd nr) (InLeft p pc pd ps # InRight g gc u gd # fs)))"
      and so: "sides_ok (compFunc (tree s)) nd (InLeft p pc pd ps # InRight g gc u gd # fs)"
  shows "\<exists>s'. modifyRedBlack (Some a) (Some p) (Some g) s = Inr s' \<and>
           repr (nodes s') None (plug (Br a BLACK (Br g RED u gd nl) nd (Br p pc nr pd ps)) fs) \<and>
           root (tree s') = rootp (plug (Br a BLACK (Br g RED u gd nl) nd (Br p pc nr pd ps)) fs) \<and>
           keeps s s'"
proof -
  let ?G = "Br g gc u gd (Br p pc (Br a nc nl nd nr) pd ps)"
  let ?G1 = "Br g gc u gd (Br a nc nl nd (Br p pc nr pd ps))"
  have ns: "isRightChild (compFunc (tree s)) (nodes s) (Some a) = Inr LEFT_CHILD"
    using isRightChild_left [of "nodes s" p pc a nc nl nd nr pd ps "InRight g gc u gd # fs" "compFunc (tree s)"] r so
    by simp
  have ps: "isRightChild (compFunc (tree s)) (nodes s) (Some p) = Inr RIGHT_CHILD"
    using isRightChild_right [of "nodes s" g gc u gd p pc "Br a nc nl nd nr" pd ps fs "compFunc (tree s)"] r so
    by simp
  have rG: "repr (nodes s) (cparent fs) ?G" and cG: "crepr (nodes s) fs (Some g)"
    using r by (simp_all add: repr_plug)
  have dG: "distinct (addrs ?G)" and dj: "set (addrs ?G) \<inter> set (caddrs fs) = {}"
    using d by (simp_all add: distinct_plug)
  obtain h1 where h1: "rightLeftSwitch (Some a) (Some p) (Some g) (nodes s) = Inr h1"
      "repr h1 (cparent fs) ?G1" "\<forall>x. x \<notin> set (addrs ?G) \<longrightarrow> h1 x = nodes s x"
      "dom h1 = dom (nodes s)"
    using rightLeftSwitch_repr [OF rG dG] by blast
  have "crepr h1 fs (Some g) = crepr (nodes s) fs (Some g)"
    using h1(3) dj by (intro crepr_frame) blast
  then have r1: "repr (nodes (s\<lparr>nodes := h1\<rparr>)) None (plug ?G1 fs)"
    using h1(2) cG by (simp add: repr_plug)
  have rt1: "root (tree (s\<lparr>nodes := h1\<rparr>)) = rootp (plug ?G1 fs)"
    using rt by (simp add: rootp_plug)
  have d1: "distinct (addrs (plug ?G1 fs))"
    using d by (simp add: addrs_plug)
  obtain s2 where s2: "rightRightSwitch (Some a) (Some g) (s\<lparr>nodes := h1\<rparr>) = Inr s2"
      "repr (nodes s2) None (plug (Br a nc (Br g gc u gd nl) nd (Br p pc nr pd ps)) fs)"
      "root (tree s2) = rootp (plug (Br a nc (Br g gc u gd nl) nd (Br p pc nr pd ps)) fs)"
      "keeps (s\<lparr>nodes := h1\<rparr>) s2"
    using rightRightSwitch_repr [OF r1 rt1 d1] so by auto
  have d2: "distinct (addrs (plug (Br a nc (Br g gc u gd nl) nd (Br p pc nr pd ps)) fs))"
    using d by (simp add: addrs_plug)
  obtain h3 where h3: "assign (nodes s2) (Some a) (\<lambda>x. x\<lparr>color := BLACK\<rparr>) = Inr h3"
      "repr h3 None (plug (Br a BLACK (Br g gc u gd nl) nd (Br p pc nr pd ps)) fs)"
      "dom h3 = dom (nodes s2)"
    using assign_color_focus [OF s2(2) d2] by blast
  have d3: "distinct (addrs (plug (Br g gc u gd nl) (InLeft a BLACK nd (Br p pc nr pd ps) # fs)))"
    using d by (simp add: addrs_plug)
  obtain h4 where h4: "assign h3 (Some g) (\<lambda>x. x\<lparr>color := RED\<rparr>) = Inr h4"
      "repr h4 None (plug (Br g RED u gd nl) (InLeft a BLACK nd (Br p pc nr pd ps) # fs))"
      "dom h4 = dom h3"
    using assign_color_focus [of h3 g gc u gd nl "InLeft a BLACK nd (Br p pc nr pd ps) # fs" RED]
      h3(2) d3 by auto
  have "modifyRedBlack (Some a) (Some p) (Some g) s = Inr (s2\<lparr>nodes := h4\<rparr>)"
    by (simp add: modifyRedBlack_def ns ps h1(1) s2(1) h3(1) h4(1))
  moreover have "keeps s (s2\<lparr>nodes := h4\<rparr>)"
    using s2(4) h1(4) h3(3) h4(3) by (simp add: keeps_def)
  ultimately show ?thesis
    using h4(2) s2(3) by (simp add: rootp_plug)
qed

section \<open>\<open>modifyNode\<close> computes the fixup\<close>

lemma last_in_caddrs: "fs \<noteq> [] \<Longrightarrow> faddr (last fs) \<in> set (caddrs fs)"
  by (induction fs) auto

lemma modifyNode_fixup:
  assumes "n = Br a nc nl nd nr"
      and "repr (nodes s) None (plug n fs)"
      and "root (tree s) = rootp (plug n fs)"
      and "distinct (addrs (plug n fs))"
      and "sides_ok (compFunc (tree s)) nd fs"
      and "rootBlack fs"
      and "length fs < 2 * fuel"
  shows "\<exists>s'. modifyNode fuel (Some a) s = Inr s' \<and>
           repr (nodes s') None (fixup n fs) \<and> root (tree s') = rootp (fixup n fs) \<and>
           keeps s s'"
  using assms
proof (induction n fs arbitrary: s fuel a nc nl nd nr rule: fixup.induct)
  case (1 n)
  then obtain k where k: "fuel = Suc k"
    by (cases fuel) auto
  obtain h1 where "assign (nodes s) (Some a) (\<lambda>x. x\<lparr>color := BLACK\<rparr>) = Inr h1"
      "repr h1 None (plug (Br a BLACK nl nd nr) [])" "dom h1 = dom (nodes s)"
    using assign_color_focus [of "nodes s" a nc nl nd nr "[]" BLACK] 1 by auto
  with 1 show ?case
    by (simp add: k keeps_def)
next
  case (2 n f)
  then obtain k where k: "fuel = Suc k"
    by (cases fuel) auto
  from 2 have "modifyNode fuel (Some a) s = Inr s"
    by (cases f) (auto simp: k zip_simps rootBlack_def deref_Some)
  with 2 show ?case
    by (simp add: keeps_def)
next
  case (3 n p pc pd ps g gc gd u fs)
  note pr = "3.prems"
  let ?fs = "InLeft p pc pd ps # InLeft g gc gd u # fs"
  obtain k where k: "fuel = Suc k" "length fs < 2 * k"
    using pr(7) by (cases fuel) auto
  have nd: "nodes s a = Some \<lparr>parent = Some p, left = rootp nl, right = rootp nr, color = nc, data = nd\<rparr>"
      "nodes s p = Some \<lparr>parent = Some g, left = Some a, right = rootp ps, color = pc, data = pd\<rparr>"
      "nodes s g = Some \<lparr>parent = cparent fs, left = Some p, right = rootp u, color = gc, data = gd\<rparr>"
    using pr(1,2) by (simp_all add: repr_plug)
  have "a \<noteq> g" "a \<notin> set (caddrs fs)"
    using pr(1,4) by (auto simp: distinct_plug)
  then have nroot: "Some a \<noteq> root (tree s)"
    using pr(3) last_in_caddrs [of fs] by (auto simp: rootp_plug)
  show ?case
  proof (cases "pc = BLACK")
    case True
    then have "modifyNode fuel (Some a) s = Inr s"
      using nroot nd by (simp add: k deref_Some)
    then show ?thesis
      using True pr(2,3) by (simp add: keeps_def)
  next
    case False
    have side: "isRightChild (compFunc (tree s)) (nodes s) (Some p) = Inr LEFT_CHILD"
      using isRightChild_left [of "nodes s" g gc p pc _ pd _ gd u fs "compFunc (tree s)"] pr(1,2,5)
      by simp
    have unc: "findUncle (Some a) s = Inr (rootp u)"
      using nd side by (simp add: findUncle_def deref_Some)
    show ?thesis
    proof (cases "col u = RED")
      case True
      then obtain ua ul ud ur where u: "u = Br ua RED ul ud ur"
        by (cases u) auto
      have un: "nodes s ua = Some \<lparr>parent = Some g, left = rootp ul, right = rootp ur, color = RED, data = ud\<rparr>"
        using pr(2) by (simp add: repr_plug u)
      have r0: "repr (nodes s) None (plug (Br p pc n pd ps) (InLeft g gc gd u # fs))"
        and d0: "distinct (addrs (plug (Br p pc n pd ps) (InLeft g gc gd u # fs)))"
        using pr(2,4) by simp_all
      obtain h1 where h1: "assign (nodes s) (Some p) (\<lambda>x. x\<lparr>color := BLACK\<rparr>) = Inr h1"
          "repr h1 None (plug (Br p BLACK n pd ps) (InLeft g gc gd u # fs))" "dom h1 = dom (nodes s)"
        using assign_color_focus [OF r0 d0] by blast
      have r1: "repr h1 None (plug (Br ua RED ul ud ur) (InRight g gc (Br p BLACK n pd ps) gd # fs))"
        and d1: "distinct (addrs (plug (Br ua RED ul ud ur) (InRight g gc (Br p BLACK n pd ps) gd # fs)))"
        using h1(2) pr(4) by (simp_all add: u addrs_plug)
      obtain h2 where h2: "assign h1 (Some ua) (\<lambda>x. x\<lparr>color := BLACK\<rparr>) = Inr h2"
          "repr h2 None (plug (Br ua BLACK ul ud ur) (InRight g gc (Br p BLACK n pd ps) gd # fs))" "dom h2 = dom h1"
        using assign_color_focus [OF r1 d1] by blast
      have r2: "repr h2 None (plug (Br g gc (Br p BLACK n pd ps) gd (Br ua BLACK ul ud ur)) fs)"
        and d2: "distinct (addrs (plug (Br g gc (Br p BLACK n pd ps) gd (Br ua BLACK ul ud ur)) fs))"
        using h2(2) pr(4) by (simp_all add: u addrs_plug)
      obtain h3 where h3: "assign h2 (Some g) (\<lambda>x. x\<lparr>color := RED\<rparr>) = Inr h3"
          "repr h3 None (plug (Br g RED (Br p BLACK n pd ps) gd (Br ua BLACK ul ud ur)) fs)" "dom h3 = dom h2"
        using assign_color_focus [OF r2 d2] by blast
      have step: "modifyNode fuel (Some a) s = modifyNode k (Some g) (s\<lparr>nodes := h3\<rparr>)"
        using nroot nd un False h1(1) h2(1) h3(1)
        by (simp add: k deref_Some unc u)
      let ?G = "Br g RED (Br p BLACK n pd ps) gd (paint BLACK u)"
      have "\<exists>s'. modifyNode k (Some g) (s\<lparr>nodes := h3\<rparr>) = Inr s' \<and>
              repr (nodes s') None (fixup ?G fs) \<and> root (tree s') = rootp (fixup ?G fs) \<and>
              keeps (s\<lparr>nodes := h3\<rparr>) s'"
      proof (rule "3.IH" [OF False True])
        show "?G = Br g RED (Br p BLACK n pd ps) gd (paint BLACK u)" by simp
        show "repr (nodes (s\<lparr>nodes := h3\<rparr>)) None (plug ?G fs)"
          using h3(2) by (simp add: u)
        show "root (tree (s\<lparr>nodes := h3\<rparr>)) = rootp (plug ?G fs)"
          using pr(3) by (simp add: rootp_plug)
        show "distinct (addrs (plug ?G fs))"
          using pr(4) by (simp add: u addrs_plug)
        show "sides_ok (compFunc (tree (s\<lparr>nodes := h3\<rparr>))) gd fs"
          using pr(5) by simp
        show "rootBlack fs"
          using pr(6) by (auto simp: rootBlack_def split: if_splits)
        show "length fs < 2 * k" by (rule k(2))
      qed
      then obtain s' where s': "modifyNode k (Some g) (s\<lparr>nodes := h3\<rparr>) = Inr s'"
          "repr (nodes s') None (fixup ?G fs)" "root (tree s') = rootp (fixup ?G fs)"
          "keeps (s\<lparr>nodes := h3\<rparr>) s'"
        by blast
      have "keeps s s'"
        using s'(4) h1(3) h2(3) h3(3) by (simp add: keeps_def)
      then show ?thesis
        using s'(1-3) step False True by simp
    next
      case nred: False
      have "modifyNode fuel (Some a) s = modifyRedBlack (Some a) (Some p) (Some g) s"
      proof (cases u)
        case Leaf
        then show ?thesis
          using nroot nd False by (simp add: k deref_Some unc)
      next
        case (Br ua uc ul ud ur)
        have "nodes s ua = Some \<lparr>parent = Some g, left = rootp ul, right = rootp ur, color = uc, data = ud\<rparr>"
          using pr(1,2) by (simp add: repr_plug Br)
        then show ?thesis
          using nroot nd False nred Br by (simp add: k deref_Some unc)
      qed
      moreover have "\<exists>s'. modifyRedBlack (Some a) (Some p) (Some g) s = Inr s' \<and>
          repr (nodes s') None (fixup n (InLeft p pc pd ps # InLeft g gc gd u # fs)) \<and> root (tree s') = rootp (fixup n (InLeft p pc pd ps # InLeft g gc gd u # fs)) \<and> keeps s s'"
        using modifyRedBlack_LL [where n=n and s=s and p=p and pc=pc and pd=pd and ps=ps and g=g and gc=gc and gd=gd and u=u and fs=fs and a=a and nc=nc and nl=nl and nd=nd and nr=nr] pr(1-5) False nred
        by simp
      ultimately show ?thesis
        by auto
    qed
  qed
next
  case (4 n p pc ps pd g gc gd u fs)
  note pr = "4.prems"
  let ?fs = "InRight p pc ps pd # InLeft g gc gd u # fs"
  obtain k where k: "fuel = Suc k" "length fs < 2 * k"
    using pr(7) by (cases fuel) auto
  have nd: "nodes s a = Some \<lparr>parent = Some p, left = rootp nl, right = rootp nr, color = nc, data = nd\<rparr>"
      "nodes s p = Some \<lparr>parent = Some g, left = rootp ps, right = Some a, color = pc, data = pd\<rparr>"
      "nodes s g = Some \<lparr>parent = cparent fs, left = Some p, right = rootp u, color = gc, data = gd\<rparr>"
    using pr(1,2) by (simp_all add: repr_plug)
  have "a \<noteq> g" "a \<notin> set (caddrs fs)"
    using pr(1,4) by (auto simp: distinct_plug)
  then have nroot: "Some a \<noteq> root (tree s)"
    using pr(3) last_in_caddrs [of fs] by (auto simp: rootp_plug)
  show ?case
  proof (cases "pc = BLACK")
    case True
    then have "modifyNode fuel (Some a) s = Inr s"
      using nroot nd by (simp add: k deref_Some)
    then show ?thesis
      using True pr(2,3) by (simp add: keeps_def)
  next
    case False
    have side: "isRightChild (compFunc (tree s)) (nodes s) (Some p) = Inr LEFT_CHILD"
      using isRightChild_left [of "nodes s" g gc p pc _ pd _ gd u fs "compFunc (tree s)"] pr(1,2,5)
      by simp
    have unc: "findUncle (Some a) s = Inr (rootp u)"
      using nd side by (simp add: findUncle_def deref_Some)
    show ?thesis
    proof (cases "col u = RED")
      case True
      then obtain ua ul ud ur where u: "u = Br ua RED ul ud ur"
        by (cases u) auto
      have un: "nodes s ua = Some \<lparr>parent = Some g, left = rootp ul, right = rootp ur, color = RED, data = ud\<rparr>"
        using pr(2) by (simp add: repr_plug u)
      have r0: "repr (nodes s) None (plug (Br p pc ps pd n) (InLeft g gc gd u # fs))"
        and d0: "distinct (addrs (plug (Br p pc ps pd n) (InLeft g gc gd u # fs)))"
        using pr(2,4) by simp_all
      obtain h1 where h1: "assign (nodes s) (Some p) (\<lambda>x. x\<lparr>color := BLACK\<rparr>) = Inr h1"
          "repr h1 None (plug (Br p BLACK ps pd n) (InLeft g gc gd u # fs))" "dom h1 = dom (nodes s)"
        using assign_color_focus [OF r0 d0] by blast
      have r1: "repr h1 None (plug (Br ua RED ul ud ur) (InRight g gc (Br p BLACK ps pd n) gd # fs))"
        and d1: "distinct (addrs (plug (Br ua RED ul ud ur) (InRight g gc (Br p BLACK ps pd n) gd # fs)))"
        using h1(2) pr(4) by (simp_all add: u addrs_plug)
      obtain h2 where h2: "assign h1 (Some ua) (\<lambda>x. x\<lparr>color := BLACK\<rparr>) = Inr h2"
          "repr h2 None (plug (Br ua BLACK ul ud ur) (InRight g gc (Br p BLACK ps pd n) gd # fs))" "dom h2 = dom h1"
        using assign_color_focus [OF r1 d1] by blast
      have r2: "repr h2 None (plug (Br g gc (Br p BLACK ps pd n) gd (Br ua BLACK ul ud ur)) fs)"
        and d2: "distinct (addrs (plug (Br g gc (Br p BLACK ps pd n) gd (Br ua BLACK ul ud ur)) fs))"
        using h2(2) pr(4) by (simp_all add: u addrs_plug)
      obtain h3 where h3: "assign h2 (Some g) (\<lambda>x. x\<lparr>color := RED\<rparr>) = Inr h3"
          "repr h3 None (plug (Br g RED (Br p BLACK ps pd n) gd (Br ua BLACK ul ud ur)) fs)" "dom h3 = dom h2"
        using assign_color_focus [OF r2 d2] by blast
      have step: "modifyNode fuel (Some a) s = modifyNode k (Some g) (s\<lparr>nodes := h3\<rparr>)"
        using nroot nd un False h1(1) h2(1) h3(1)
        by (simp add: k deref_Some unc u)
      let ?G = "Br g RED (Br p BLACK ps pd n) gd (paint BLACK u)"
      have "\<exists>s'. modifyNode k (Some g) (s\<lparr>nodes := h3\<rparr>) = Inr s' \<and>
              repr (nodes s') None (fixup ?G fs) \<and> root (tree s') = rootp (fixup ?G fs) \<and>
              keeps (s\<lparr>nodes := h3\<rparr>) s'"
      proof (rule "4.IH" [OF False True])
        show "?G = Br g RED (Br p BLACK ps pd n) gd (paint BLACK u)" by simp
        show "repr (nodes (s\<lparr>nodes := h3\<rparr>)) None (plug ?G fs)"
          using h3(2) by (simp add: u)
        show "root (tree (s\<lparr>nodes := h3\<rparr>)) = rootp (plug ?G fs)"
          using pr(3) by (simp add: rootp_plug)
        show "distinct (addrs (plug ?G fs))"
          using pr(4) by (simp add: u addrs_plug)
        show "sides_ok (compFunc (tree (s\<lparr>nodes := h3\<rparr>))) gd fs"
          using pr(5) by simp
        show "rootBlack fs"
          using pr(6) by (auto simp: rootBlack_def split: if_splits)
        show "length fs < 2 * k" by (rule k(2))
      qed
      then obtain s' where s': "modifyNode k (Some g) (s\<lparr>nodes := h3\<rparr>) = Inr s'"
          "repr (nodes s') None (fixup ?G fs)" "root (tree s') = rootp (fixup ?G fs)"
          "keeps (s\<lparr>nodes := h3\<rparr>) s'"
        by blast
      have "keeps s s'"
        using s'(4) h1(3) h2(3) h3(3) by (simp add: keeps_def)
      then show ?thesis
        using s'(1-3) step False True by simp
    next
      case nred: False
      have "modifyNode fuel (Some a) s = modifyRedBlack (Some a) (Some p) (Some g) s"
      proof (cases u)
        case Leaf
        then show ?thesis
          using nroot nd False by (simp add: k deref_Some unc)
      next
        case (Br ua uc ul ud ur)
        have "nodes s ua = Some \<lparr>parent = Some g, left = rootp ul, right = rootp ur, color = uc, data = ud\<rparr>"
          using pr(1,2) by (simp add: repr_plug Br)
        then show ?thesis
          using nroot nd False nred Br by (simp add: k deref_Some unc)
      qed
      moreover have "\<exists>s'. modifyRedBlack (Some a) (Some p) (Some g) s = Inr s' \<and>
          repr (nodes s') None (fixup n (InRight p pc ps pd # InLeft g gc gd u # fs)) \<and> root (tree s') = rootp (fixup n (InRight p pc ps pd # InLeft g gc gd u # fs)) \<and> keeps s s'"
        using modifyRedBlack_LR [where s=s and p=p and pc=pc and pd=pd and ps=ps and g=g and gc=gc and gd=gd and u=u and fs=fs and a=a and nc=nc and nl=nl and nd=nd and nr=nr] pr(1-5) False nred
        by simp
      ultimately show ?thesis
        by auto
    qed
  qed
next
  case (5 n p pc pd ps g gc u gd fs)
  note pr = "5.prems"
  let ?fs = "InLeft p pc pd ps # InRight g gc u gd # fs"
  obtain k where k: "fuel = Suc k" "length fs < 2 * k"
    using pr(7) by (cases fuel) auto
  have nd: "nodes s a = Some \<lparr>parent = Some p, left = rootp nl, right = rootp nr, color = nc, data = nd\<rparr>"
      "nodes s p = Some \<lparr>parent = Some g, left = Some a, right = rootp ps, color = pc, data = pd\<rparr>"
      "nodes s g = Some \<lparr>parent = cparent fs, left = rootp u, right = Some p, color = gc, data = gd\<rparr>"
    using pr(1,2) by (simp_all add: repr_plug)
  have "a \<noteq> g" "a \<notin> set (caddrs fs)"
    using pr(1,4) by (auto simp: distinct_plug)
  then have nroot: "Some a \<noteq> root (tree s)"
    using pr(3) last_in_caddrs [of fs] by (auto simp: rootp_plug)
  show ?case
  proof (cases "pc = BLACK")
    case True
    then have "modifyNode fuel (Some a) s = Inr s"
      using nroot nd by (simp add: k deref_Some)
    then show ?thesis
      using True pr(2,3) by (simp add: keeps_def)
  next
    case False
    have side: "isRightChild (compFunc (tree s)) (nodes s) (Some p) = Inr RIGHT_CHILD"
      using isRightChild_right [of "nodes s" g gc u gd p pc _ pd _ fs "compFunc (tree s)"] pr(1,2,5)
      by simp
    have unc: "findUncle (Some a) s = Inr (rootp u)"
      using nd side by (simp add: findUncle_def deref_Some)
    show ?thesis
    proof (cases "col u = RED")
      case True
      then obtain ua ul ud ur where u: "u = Br ua RED ul ud ur"
        by (cases u) auto
      have un: "nodes s ua = Some \<lparr>parent = Some g, left = rootp ul, right = rootp ur, color = RED, data = ud\<rparr>"
        using pr(2) by (simp add: repr_plug u)
      have r0: "repr (nodes s) None (plug (Br p pc n pd ps) (InRight g gc u gd # fs))"
        and d0: "distinct (addrs (plug (Br p pc n pd ps) (InRight g gc u gd # fs)))"
        using pr(2,4) by simp_all
      obtain h1 where h1: "assign (nodes s) (Some p) (\<lambda>x. x\<lparr>color := BLACK\<rparr>) = Inr h1"
          "repr h1 None (plug (Br p BLACK n pd ps) (InRight g gc u gd # fs))" "dom h1 = dom (nodes s)"
        using assign_color_focus [OF r0 d0] by blast
      have r1: "repr h1 None (plug (Br ua RED ul ud ur) (InLeft g gc gd (Br p BLACK n pd ps) # fs))"
        and d1: "distinct (addrs (plug (Br ua RED ul ud ur) (InLeft g gc gd (Br p BLACK n pd ps) # fs)))"
        using h1(2) pr(4) by (simp_all add: u addrs_plug)
      obtain h2 where h2: "assign h1 (Some ua) (\<lambda>x. x\<lparr>color := BLACK\<rparr>) = Inr h2"
          "repr h2 None (plug (Br ua BLACK ul ud ur) (InLeft g gc gd (Br p BLACK n pd ps) # fs))" "dom h2 = dom h1"
        using assign_color_focus [OF r1 d1] by blast
      have r2: "repr h2 None (plug (Br g gc (Br ua BLACK ul ud ur) gd (Br p BLACK n pd ps)) fs)"
        and d2: "distinct (addrs (plug (Br g gc (Br ua BLACK ul ud ur) gd (Br p BLACK n pd ps)) fs))"
        using h2(2) pr(4) by (simp_all add: u addrs_plug)
      obtain h3 where h3: "assign h2 (Some g) (\<lambda>x. x\<lparr>color := RED\<rparr>) = Inr h3"
          "repr h3 None (plug (Br g RED (Br ua BLACK ul ud ur) gd (Br p BLACK n pd ps)) fs)" "dom h3 = dom h2"
        using assign_color_focus [OF r2 d2] by blast
      have step: "modifyNode fuel (Some a) s = modifyNode k (Some g) (s\<lparr>nodes := h3\<rparr>)"
        using nroot nd un False h1(1) h2(1) h3(1)
        by (simp add: k deref_Some unc u)
      let ?G = "Br g RED (paint BLACK u) gd (Br p BLACK n pd ps)"
      have "\<exists>s'. modifyNode k (Some g) (s\<lparr>nodes := h3\<rparr>) = Inr s' \<and>
              repr (nodes s') None (fixup ?G fs) \<and> root (tree s') = rootp (fixup ?G fs) \<and>
              keeps (s\<lparr>nodes := h3\<rparr>) s'"
      proof (rule "5.IH" [OF False True])
        show "?G = Br g RED (paint BLACK u) gd (Br p BLACK n pd ps)" by simp
        show "repr (nodes (s\<lparr>nodes := h3\<rparr>)) None (plug ?G fs)"
          using h3(2) by (simp add: u)
        show "root (tree (s\<lparr>nodes := h3\<rparr>)) = rootp (plug ?G fs)"
          using pr(3) by (simp add: rootp_plug)
        show "distinct (addrs (plug ?G fs))"
          using pr(4) by (simp add: u addrs_plug)
        show "sides_ok (compFunc (tree (s\<lparr>nodes := h3\<rparr>))) gd fs"
          using pr(5) by simp
        show "rootBlack fs"
          using pr(6) by (auto simp: rootBlack_def split: if_splits)
        show "length fs < 2 * k" by (rule k(2))
      qed
      then obtain s' where s': "modifyNode k (Some g) (s\<lparr>nodes := h3\<rparr>) = Inr s'"
          "repr (nodes s') None (fixup ?G fs)" "root (tree s') = rootp (fixup ?G fs)"
          "keeps (s\<lparr>nodes := h3\<rparr>) s'"
        by blast
      have "keeps s s'"
        using s'(4) h1(3) h2(3) h3(3) by (simp add: keeps_def)
      then show ?thesis
        using s'(1-3) step False True by simp
    next
      case nred: False
      have "modifyNode fuel (Some a) s = modifyRedBlack (Some a) (Some p) (Some g) s"
      proof (cases u)
        case Leaf
        then show ?thesis
          using nroot nd False by (simp add: k deref_Some unc)
      next
        case (Br ua uc ul ud ur)
        have "nodes s ua = Some \<lparr>parent = Some g, left = rootp ul, right = rootp ur, color = uc, data = ud\<rparr>"
          using pr(1,2) by (simp add: repr_plug Br)
        then show ?thesis
          using nroot nd False nred Br by (simp add: k deref_Some unc)
      qed
      moreover have "\<exists>s'. modifyRedBlack (Some a) (Some p) (Some g) s = Inr s' \<and>
          repr (nodes s') None (fixup n (InLeft p pc pd ps # InRight g gc u gd # fs)) \<and> root (tree s') = rootp (fixup n (InLeft p pc pd ps # InRight g gc u gd # fs)) \<and> keeps s s'"
        using modifyRedBlack_RL [where s=s and p=p and pc=pc and pd=pd and ps=ps and g=g and gc=gc and gd=gd and u=u and fs=fs and a=a and nc=nc and nl=nl and nd=nd and nr=nr] pr(1-5) False nred
        by simp
      ultimately show ?thesis
        by auto
    qed
  qed
next
  case (6 n p pc ps pd g gc u gd fs)
  note pr = "6.prems"
  let ?fs = "InRight p pc ps pd # InRight g gc u gd # fs"
  obtain k where k: "fuel = Suc k" "length fs < 2 * k"
    using pr(7) by (cases fuel) auto
  have nd: "nodes s a = Some \<lparr>parent = Some p, left = rootp nl, right = rootp nr, color = nc, data = nd\<rparr>"
      "nodes s p = Some \<lparr>parent = Some g, left = rootp ps, right = Some a, color = pc, data = pd\<rparr>"
      "nodes s g = Some \<lparr>parent = cparent fs, left = rootp u, right = Some p, color = gc, data = gd\<rparr>"
    using pr(1,2) by (simp_all add: repr_plug)
  have "a \<noteq> g" "a \<notin> set (caddrs fs)"
    using pr(1,4) by (auto simp: distinct_plug)
  then have nroot: "Some a \<noteq> root (tree s)"
    using pr(3) last_in_caddrs [of fs] by (auto simp: rootp_plug)
  show ?case
  proof (cases "pc = BLACK")
    case True
    then have "modifyNode fuel (Some a) s = Inr s"
      using nroot nd by (simp add: k deref_Some)
    then show ?thesis
      using True pr(2,3) by (simp add: keeps_def)
  next
    case False
    have side: "isRightChild (compFunc (tree s)) (nodes s) (Some p) = Inr RIGHT_CHILD"
      using isRightChild_right [of "nodes s" g gc u gd p pc _ pd _ fs "compFunc (tree s)"] pr(1,2,5)
      by simp
    have unc: "findUncle (Some a) s = Inr (rootp u)"
      using nd side by (simp add: findUncle_def deref_Some)
    show ?thesis
    proof (cases "col u = RED")
      case True
      then obtain ua ul ud ur where u: "u = Br ua RED ul ud ur"
        by (cases u) auto
      have un: "nodes s ua = Some \<lparr>parent = Some g, left = rootp ul, right = rootp ur, color = RED, data = ud\<rparr>"
        using pr(2) by (simp add: repr_plug u)
      have r0: "repr (nodes s) None (plug (Br p pc ps pd n) (InRight g gc u gd # fs))"
        and d0: "distinct (addrs (plug (Br p pc ps pd n) (InRight g gc u gd # fs)))"
        using pr(2,4) by simp_all
      obtain h1 where h1: "assign (nodes s) (Some p) (\<lambda>x. x\<lparr>color := BLACK\<rparr>) = Inr h1"
          "repr h1 None (plug (Br p BLACK ps pd n) (InRight g gc u gd # fs))" "dom h1 = dom (nodes s)"
        using assign_color_focus [OF r0 d0] by blast
      have r1: "repr h1 None (plug (Br ua RED ul ud ur) (InLeft g gc gd (Br p BLACK ps pd n) # fs))"
        and d1: "distinct (addrs (plug (Br ua RED ul ud ur) (InLeft g gc gd (Br p BLACK ps pd n) # fs)))"
        using h1(2) pr(4) by (simp_all add: u addrs_plug)
      obtain h2 where h2: "assign h1 (Some ua) (\<lambda>x. x\<lparr>color := BLACK\<rparr>) = Inr h2"
          "repr h2 None (plug (Br ua BLACK ul ud ur) (InLeft g gc gd (Br p BLACK ps pd n) # fs))" "dom h2 = dom h1"
        using assign_color_focus [OF r1 d1] by blast
      have r2: "repr h2 None (plug (Br g gc (Br ua BLACK ul ud ur) gd (Br p BLACK ps pd n)) fs)"
        and d2: "distinct (addrs (plug (Br g gc (Br ua BLACK ul ud ur) gd (Br p BLACK ps pd n)) fs))"
        using h2(2) pr(4) by (simp_all add: u addrs_plug)
      obtain h3 where h3: "assign h2 (Some g) (\<lambda>x. x\<lparr>color := RED\<rparr>) = Inr h3"
          "repr h3 None (plug (Br g RED (Br ua BLACK ul ud ur) gd (Br p BLACK ps pd n)) fs)" "dom h3 = dom h2"
        using assign_color_focus [OF r2 d2] by blast
      have step: "modifyNode fuel (Some a) s = modifyNode k (Some g) (s\<lparr>nodes := h3\<rparr>)"
        using nroot nd un False h1(1) h2(1) h3(1)
        by (simp add: k deref_Some unc u)
      let ?G = "Br g RED (paint BLACK u) gd (Br p BLACK ps pd n)"
      have "\<exists>s'. modifyNode k (Some g) (s\<lparr>nodes := h3\<rparr>) = Inr s' \<and>
              repr (nodes s') None (fixup ?G fs) \<and> root (tree s') = rootp (fixup ?G fs) \<and>
              keeps (s\<lparr>nodes := h3\<rparr>) s'"
      proof (rule "6.IH" [OF False True])
        show "?G = Br g RED (paint BLACK u) gd (Br p BLACK ps pd n)" by simp
        show "repr (nodes (s\<lparr>nodes := h3\<rparr>)) None (plug ?G fs)"
          using h3(2) by (simp add: u)
        show "root (tree (s\<lparr>nodes := h3\<rparr>)) = rootp (plug ?G fs)"
          using pr(3) by (simp add: rootp_plug)
        show "distinct (addrs (plug ?G fs))"
          using pr(4) by (simp add: u addrs_plug)
        show "sides_ok (compFunc (tree (s\<lparr>nodes := h3\<rparr>))) gd fs"
          using pr(5) by simp
        show "rootBlack fs"
          using pr(6) by (auto simp: rootBlack_def split: if_splits)
        show "length fs < 2 * k" by (rule k(2))
      qed
      then obtain s' where s': "modifyNode k (Some g) (s\<lparr>nodes := h3\<rparr>) = Inr s'"
          "repr (nodes s') None (fixup ?G fs)" "root (tree s') = rootp (fixup ?G fs)"
          "keeps (s\<lparr>nodes := h3\<rparr>) s'"
        by blast
      have "keeps s s'"
        using s'(4) h1(3) h2(3) h3(3) by (simp add: keeps_def)
      then show ?thesis
        using s'(1-3) step False True by simp
    next
      case nred: False
      have "modifyNode fuel (Some a) s = modifyRedBlack (Some a) (Some p) (Some g) s"
      proof (cases u)
        case Leaf
        then show ?thesis
          using nroot nd False by (simp add: k deref_Some unc)
      next
        case (Br ua uc ul ud ur)
        have "nodes s ua = Some \<lparr>parent = Some g, left = rootp ul, right = rootp ur, color = uc, data = ud\<rparr>"
          using pr(1,2) by (simp add: repr_plug Br)
        then show ?thesis
          using nroot nd False nred Br by (simp add: k deref_Some unc)
      qed
      moreover have "\<exists>s'. modifyRedBlack (Some a) (Some p) (Some g) s = Inr s' \<and>
          repr (nodes s') None (fixup n (InRight p pc ps pd # InRight g gc u gd # fs)) \<and> root (tree s') = rootp (fixup n (InRight p pc ps pd # InRight g gc u gd # fs)) \<and> keeps s s'"
        using modifyRedBlack_RR [where n=n and s=s and p=p and pc=pc and pd=pd and ps=ps and g=g and gc=gc and gd=gd and u=u and fs=fs and a=a and nc=nc and nl=nl and nd=nd and nr=nr] pr(1-5) False nred
        by simp
      ultimately show ?thesis
        by auto
    qed
  qed
qed

section \<open>The fixup restores the invariants\<close>

lemma not_BLACK: "(c \<noteq> BLACK) = (c = RED)"
  by (cases c) simp_all

lemma not_RED: "(c \<noteq> RED) = (c = BLACK)"
  by (cases c) simp_all

lemma col_plug: "col (plug t fs) = (if fs = [] then col t else fcol (last fs))"
  by (induction t fs rule: plug.induct) auto

lemma invh_plug: "invh (plug t fs) = (invh t \<and> cinvh (bh t) fs)"
proof (induction fs arbitrary: t)
  case Nil
  then show ?case by simp
next
  case (Cons f fs)
  show ?case by (cases f) (auto simp: Cons.IH)
qed

lemma invc_plug: "invc (plug t fs) = (invc t \<and> cinvc fs \<and> (ccol fs = RED \<longrightarrow> col t = BLACK))"
proof (induction fs arbitrary: t)
  case Nil
  then show ?case by simp
next
  case (Cons f fs)
  show ?case by (cases f; cases "ccol fs"; cases "fcol f") (auto simp: Cons.IH)
qed

lemma inorder_paint [simp]: "inorder (paint c t) = inorder t"
  by (cases t) auto

lemma addrs_paint [simp]: "addrs (paint c t) = addrs t"
  by (cases t) auto

lemma rootBlack_tl2: "rootBlack (f1 # f2 # fs) \<Longrightarrow> rootBlack fs"
  by (auto simp: rootBlack_def split: if_splits)

lemma inorder_fixup: "n \<noteq> Leaf \<Longrightarrow> inorder (fixup n fs) = inorder (plug n fs)"
  by (induction n fs rule: fixup.induct) (auto simp: inorder_plug split: rbt.splits)

lemma addrs_fixup: "n \<noteq> Leaf \<Longrightarrow> addrs (fixup n fs) = addrs (plug n fs)"
  by (induction n fs rule: fixup.induct) (auto simp: addrs_plug split: rbt.splits)

lemma bh_paint_red: "col u = RED \<Longrightarrow> bh (paint BLACK u) = Suc (bh u)"
  by (cases u) auto

lemma invc_paint_red: "invc u \<Longrightarrow> invc (paint BLACK u)"
  by (cases u) auto

lemma invh_paint: "invh (paint c u) = invh u"
  by (cases u) auto

lemma col_paint_red: "col u = RED \<Longrightarrow> col (paint BLACK u) = BLACK"
  by (cases u) auto

lemma fixup_inv:
  assumes "invc n" "invh n" "col n = RED" "cinvc fs" "cinvh (bh n) fs" "rootBlack fs"
  shows "invc (fixup n fs) \<and> invh (fixup n fs) \<and> col (fixup n fs) = BLACK"
  using assms
proof (induction n fs rule: fixup.induct)
  case (1 n)
  then show ?case by (cases n) auto
next
  case (2 n f)
  then show ?case by (cases f) (auto simp: rootBlack_def)
next
  case (3 n p pc pd ps g gc gd u fs)
  note rb = rootBlack_tl2 [OF "3.prems"(6)]
  show ?case
  proof (cases pc)
    case BLACK
    with "3.prems" show ?thesis
      by (auto simp: invc_plug invh_plug col_plug rootBlack_def not_RED)
  next
    case RED
    show ?thesis
    proof (cases "col u")
      case uRED: RED
      have "invc (fixup (Br g RED (Br p BLACK n pd ps) gd (paint BLACK u)) fs) \<and>
            invh (fixup (Br g RED (Br p BLACK n pd ps) gd (paint BLACK u)) fs) \<and>
            col (fixup (Br g RED (Br p BLACK n pd ps) gd (paint BLACK u)) fs) = BLACK"
        using "3.prems" RED uRED rb
        by (intro "3.IH") (auto simp: bh_paint_red invc_paint_red invh_paint col_paint_red)
      then show ?thesis
        using RED uRED by simp
    next
      case uBLACK: BLACK
      with "3.prems" RED rb show ?thesis
        by (auto simp: invc_plug invh_plug col_plug rootBlack_def not_RED)
    qed
  qed
next
  case (4 n p pc ps pd g gc gd u fs)
  note rb = rootBlack_tl2 [OF "4.prems"(6)]
  show ?case
  proof (cases pc)
    case BLACK
    with "4.prems" show ?thesis
      by (auto simp: invc_plug invh_plug col_plug rootBlack_def not_RED)
  next
    case RED
    show ?thesis
    proof (cases "col u")
      case uRED: RED
      have "invc (fixup (Br g RED (Br p BLACK ps pd n) gd (paint BLACK u)) fs) \<and>
            invh (fixup (Br g RED (Br p BLACK ps pd n) gd (paint BLACK u)) fs) \<and>
            col (fixup (Br g RED (Br p BLACK ps pd n) gd (paint BLACK u)) fs) = BLACK"
        using "4.prems" RED uRED rb
        by (intro "4.IH") (auto simp: bh_paint_red invc_paint_red invh_paint col_paint_red)
      then show ?thesis
        using RED uRED by simp
    next
      case uBLACK: BLACK
      with "4.prems" RED rb show ?thesis
        by (cases n) (auto simp: invc_plug invh_plug col_plug rootBlack_def not_RED)
    qed
  qed
next
  case (5 n p pc pd ps g gc u gd fs)
  note rb = rootBlack_tl2 [OF "5.prems"(6)]
  show ?case
  proof (cases pc)
    case BLACK
    with "5.prems" show ?thesis
      by (auto simp: invc_plug invh_plug col_plug rootBlack_def not_RED)
  next
    case RED
    show ?thesis
    proof (cases "col u")
      case uRED: RED
      have "invc (fixup (Br g RED (paint BLACK u) gd (Br p BLACK n pd ps)) fs) \<and>
            invh (fixup (Br g RED (paint BLACK u) gd (Br p BLACK n pd ps)) fs) \<and>
            col (fixup (Br g RED (paint BLACK u) gd (Br p BLACK n pd ps)) fs) = BLACK"
        using "5.prems" RED uRED rb
        by (intro "5.IH") (auto simp: bh_paint_red invc_paint_red invh_paint col_paint_red)
      then show ?thesis
        using RED uRED by simp
    next
      case uBLACK: BLACK
      with "5.prems" RED rb show ?thesis
        by (cases n) (auto simp: invc_plug invh_plug col_plug rootBlack_def not_RED)
    qed
  qed
next
  case (6 n p pc ps pd g gc u gd fs)
  note rb = rootBlack_tl2 [OF "6.prems"(6)]
  show ?case
  proof (cases pc)
    case BLACK
    with "6.prems" show ?thesis
      by (auto simp: invc_plug invh_plug col_plug rootBlack_def not_RED)
  next
    case RED
    show ?thesis
    proof (cases "col u")
      case uRED: RED
      have "invc (fixup (Br g RED (paint BLACK u) gd (Br p BLACK ps pd n)) fs) \<and>
            invh (fixup (Br g RED (paint BLACK u) gd (Br p BLACK ps pd n)) fs) \<and>
            col (fixup (Br g RED (paint BLACK u) gd (Br p BLACK ps pd n)) fs) = BLACK"
        using "6.prems" RED uRED rb
        by (intro "6.IH") (auto simp: bh_paint_red invc_paint_red invh_paint col_paint_red)
      then show ?thesis
        using RED uRED by simp
    next
      case uBLACK: BLACK
      with "6.prems" RED rb show ?thesis
        by (auto simp: invc_plug invh_plug col_plug rootBlack_def not_RED)
    qed
  qed
qed

section \<open>Order and descent\<close>

lemma to_asym: "total_order cf \<Longrightarrow> (cf x y < 0) = (0 < cf y x)"
  by (simp add: total_order_def)

lemma to_refl: "total_order cf \<Longrightarrow> cf x x = 0"
  using to_asym [of cf x x] by auto

lemma to_eq_sym: "total_order cf \<Longrightarrow> (cf x y = 0) = (cf y x = 0)"
  using to_asym [of cf x y] to_asym [of cf y x] by auto

lemma to_le_trans: "total_order cf \<Longrightarrow> cf x y \<le> 0 \<Longrightarrow> cf y z \<le> 0 \<Longrightarrow> cf x z \<le> 0"
  unfolding total_order_def by blast

lemma to_le_lt: "total_order cf \<Longrightarrow> cf x y \<le> 0 \<Longrightarrow> cf y z < 0 \<Longrightarrow> cf x z < 0"
proof (rule ccontr)
  assume t: "total_order cf" and xy: "cf x y \<le> 0" and yz: "cf y z < 0" and n: "\<not> cf x z < 0"
  then have "cf z x \<le> 0" using to_asym [of cf x z] by auto
  then have "cf z y \<le> 0" using to_le_trans [OF t _ xy] by blast
  then show False using yz to_asym [OF t, of y z] by auto
qed

lemma to_lt_le: "total_order cf \<Longrightarrow> cf x y < 0 \<Longrightarrow> cf y z \<le> 0 \<Longrightarrow> cf x z < 0"
proof (rule ccontr)
  assume t: "total_order cf" and xy: "cf x y < 0" and yz: "cf y z \<le> 0" and n: "\<not> cf x z < 0"
  then have "cf z x \<le> 0" using to_asym [of cf x z] by auto
  then have "cf y x \<le> 0" using to_le_trans [OF t yz] by blast
  then show False using xy to_asym [OF t, of x y] by auto
qed

lemma to_trans: "total_order cf \<Longrightarrow> cf x y < 0 \<Longrightarrow> cf y z < 0 \<Longrightarrow> cf x z < 0"
  using to_le_lt [of cf x y z] by simp

lemma descend_plug: "descend cf x t fs = Some fs' \<Longrightarrow> plug Leaf fs' = plug t fs"
  by (induction cf x t fs rule: descend.induct) (auto split: if_splits)

lemma descend_length: "descend cf x t fs = Some fs' \<Longrightarrow> length fs' \<le> length fs + height t"
  by (induction cf x t fs rule: descend.induct) (fastforce split: if_splits)+

lemma descend_None_elem: "descend cf x t fs = None \<Longrightarrow> \<exists>y\<in>set (inorder t). cf x y = 0"
  by (induction cf x t fs rule: descend.induct) (auto split: if_splits)

lemma ascending_append:
  "ascending cf (xs @ ys) =
     (ascending cf xs \<and> ascending cf ys \<and> (\<forall>x\<in>set xs. \<forall>y\<in>set ys. cf x y < 0))"
  by (simp add: ascending_def sorted_wrt_append)

lemma ascending_Cons:
  "ascending cf (x # ys) = ((\<forall>y\<in>set ys. cf x y < 0) \<and> ascending cf ys)"
  by (simp add: ascending_def)

lemma descend_elem_None:
  assumes "total_order cf" "ascending cf (inorder t)" "y \<in> set (inorder t)" "cf x y = 0"
  shows "descend cf x t fs = None"
  using assms(2-)
proof (induction t arbitrary: fs)
  case Leaf
  then show ?case by simp
next
  case (Br a c l d r)
  show ?case
  proof (cases "cf x d = 0")
    case True
    then show ?thesis by simp
  next
    case False
    show ?thesis
    proof (cases "cf x d < 0")
      case True
      have "y \<notin> set (inorder r)"
      proof
        assume "y \<in> set (inorder r)"
        then have "cf d y < 0" using Br.prems(1) by (auto simp: ascending_append ascending_Cons)
        then have "cf x y < 0" using to_trans [OF assms(1) True] by blast
        then show False using Br.prems(3) by simp
      qed
      moreover have "y \<noteq> d" using False Br.prems(3) by auto
      ultimately have "y \<in> set (inorder l)" using Br.prems(2) by auto
      then show ?thesis
        using Br.IH(1) Br.prems True False by (auto simp: ascending_append ascending_Cons)
    next
      case nlt: False
      then have dx: "cf d x < 0" using False to_asym [OF assms(1), of d x] by auto
      have "y \<notin> set (inorder l)"
      proof
        assume "y \<in> set (inorder l)"
        then have "cf y d < 0" using Br.prems(1) by (auto simp: ascending_append ascending_Cons)
        then have "cf y x < 0" using to_trans [OF assms(1) _ dx] by blast
        then show False using Br.prems(3) to_eq_sym [OF assms(1), of x y] by simp
      qed
      moreover have "y \<noteq> d" using False Br.prems(3) by auto
      ultimately have "y \<in> set (inorder r)" using Br.prems(2) by auto
      then show ?thesis
        using Br.IH(2) Br.prems nlt False by (auto simp: ascending_append ascending_Cons)
    qed
  qed
qed

lemma descend_bounds:
  assumes to: "total_order cf"
  shows "descend cf x t fs = Some fs' \<Longrightarrow> ascending cf (inorder t) \<Longrightarrow>
     (\<forall>y\<in>set (cbefore fs). cf y x < 0) \<Longrightarrow> (\<forall>y\<in>set (cafter fs). cf x y < 0) \<Longrightarrow>
     (\<forall>y\<in>set (cbefore fs'). cf y x < 0) \<and> (\<forall>y\<in>set (cafter fs'). cf x y < 0)"
proof (induction t arbitrary: fs)
  case Leaf
  then show ?case by simp
next
  case (Br a c l d r)
  show ?case
  proof (cases "cf x d < 0")
    case True
    have "\<forall>y\<in>set (inorder r). cf x y < 0"
      using Br.prems(2) to_trans [OF to True] by (auto simp: ascending_append ascending_Cons)
    then show ?thesis
      using Br.IH(1) [of "InLeft a c d r # fs"] Br.prems True
      by (auto simp: ascending_append ascending_Cons)
  next
    case False
    then have ne: "cf x d \<noteq> 0" using Br.prems(1) by (auto split: if_splits)
    then have dx: "cf d x < 0" using False to_asym [OF to, of d x] by auto
    have "\<forall>y\<in>set (inorder l). cf y x < 0"
      using Br.prems(2) to_trans [OF to _ dx] by (auto simp: ascending_append ascending_Cons)
    then show ?thesis
      using Br.IH(2) [of "InRight a c l d # fs"] Br.prems False ne dx
      by (auto simp: ascending_append ascending_Cons)
  qed
qed

section \<open>Insertion\<close>

lemma sides_ok_ascending:
  assumes to: "total_order cf"
  shows "ascending cf (cbefore fs @ d # cafter fs) \<Longrightarrow> sides_ok cf d fs"
proof (induction fs arbitrary: d)
  case Nil
  then show ?case by simp
next
  case (Cons f fs)
  show ?case
  proof (cases f)
    case (InLeft pa pc pd sib)
    have "ascending cf (cbefore fs @ pd # cafter fs)"
      using Cons.prems by (auto simp: InLeft ascending_append ascending_Cons)
    then have "sides_ok cf pd fs" by (rule Cons.IH)
    moreover have "cf rd d \<noteq> 0" if "sib = Br ra rc rl rd rr" for ra rc rl rd rr
    proof -
      have "cf d rd < 0"
        using Cons.prems that by (auto simp: InLeft ascending_append ascending_Cons)
      then show ?thesis using to_asym [OF to, of d rd] by auto
    qed
    ultimately show ?thesis by (auto simp: InLeft split: rbt.splits)
  next
    case (InRight pa pc sib pd)
    have "ascending cf (cbefore fs @ pd # cafter fs)"
      using Cons.prems by (auto simp: InRight ascending_append ascending_Cons)
    then have "sides_ok cf pd fs" by (rule Cons.IH)
    then show ?thesis by (simp add: InRight to_refl [OF to])
  qed
qed

lemma sides_ok_bst:
  assumes "total_order cf" "bst cf (plug (Br a c l d r) fs)"
  shows "sides_ok cf d fs"
  using assms(2)
  by (intro sides_ok_ascending [OF assms(1)])
    (auto simp: bst_def inorder_plug ascending_append ascending_Cons)

lemma addNewNode_descend:
  assumes "repr h (cparent fs) t" "crepr h fs (rootp t)" "t \<noteq> Leaf"
      and "distinct (addrs (plug t fs))" "new \<notin> set (addrs (plug t fs))"
      and "h new = Some \<lparr>parent = None, left = None, right = None, color = RED, data = x\<rparr>"
      and "height t \<le> fuel"
  shows "case descend cf x t fs of
           None \<Rightarrow> addNewNode fuel (rootp t) (Some new) cf h = Inr (FAILURE, h)
         | Some fs' \<Rightarrow>
             (\<exists>h'. addNewNode fuel (rootp t) (Some new) cf h = Inr (SUCCESS, h') \<and>
                repr h' None (plug (Br new RED Leaf x Leaf) fs') \<and> dom h' = dom h)"
  using assms
proof (induction t arbitrary: fs fuel)
  case Leaf
  then show ?case by simp
next
  case (Br a c l d r)
  obtain k where k: "fuel = Suc k" "height l \<le> k" "height r \<le> k"
    using Br.prems(7) by (cases fuel) auto
  have ha: "h a = Some \<lparr>parent = cparent fs, left = rootp l, right = rootp r, color = c, data = d\<rparr>"
    using Br.prems(1) by simp
  have ne: "new \<noteq> a" "new \<notin> set (addrs l)" "new \<notin> set (addrs r)" "new \<notin> set (caddrs fs)"
    using Br.prems(5) by (auto simp: addrs_plug set_caddrs)
  have di: "a \<notin> set (addrs l)" "a \<notin> set (addrs r)" "a \<notin> set (caddrs fs)"
    using Br.prems(4) by (auto simp: distinct_plug)
  show ?case
  proof (cases "cf x d = 0")
    case True
    then show ?thesis
      using ha Br.prems(6) by (simp add: k deref_Some)
  next
    case False
    show ?thesis
    proof (cases "cf x d < 0")
      case True
      show ?thesis
      proof (cases l)
        case Leaf
        let ?h' = "h(a \<mapsto> \<lparr>parent = cparent fs, left = Some new, right = rootp r, color = c, data = d\<rparr>,
                     new \<mapsto> \<lparr>parent = Some a, left = None, right = None, color = RED, data = x\<rparr>)"
        have "addNewNode fuel (Some a) (Some new) cf h = Inr (SUCCESS, ?h')"
          using ha Br.prems(6) False True Leaf ne(1)
          by (simp add: k deref_Some assign_Some)
        moreover have "repr ?h' None (plug (Br new RED Leaf x Leaf) (InLeft a c d r # fs))"
          using Br.prems(1,2) ne di by (simp add: repr_plug)
        moreover have "dom ?h' = dom h"
          using ha Br.prems(6) by auto
        ultimately show ?thesis
          using False True Leaf by simp
      next
        case (Br la lc ll ld lr)
        have "case descend cf x l (InLeft a c d r # fs) of
                None \<Rightarrow> addNewNode k (rootp l) (Some new) cf h = Inr (FAILURE, h)
              | Some fs' \<Rightarrow>
                  (\<exists>h'. addNewNode k (rootp l) (Some new) cf h = Inr (SUCCESS, h') \<and>
                     repr h' None (plug (Br new RED Leaf x Leaf) fs') \<and> dom h' = dom h)"
          using Br.prems Br k(2)
          by (intro Br.IH(1)) simp_all
        moreover have "addNewNode fuel (Some a) (Some new) cf h = addNewNode k (rootp l) (Some new) cf h"
          using ha Br.prems(6) False True Br by (simp add: k deref_Some)
        ultimately show ?thesis
          using False True by (simp split: option.splits)
      qed
    next
      case nlt: False
      show ?thesis
      proof (cases r)
        case Leaf
        let ?h' = "h(a \<mapsto> \<lparr>parent = cparent fs, left = rootp l, right = Some new, color = c, data = d\<rparr>,
                     new \<mapsto> \<lparr>parent = Some a, left = None, right = None, color = RED, data = x\<rparr>)"
        have "addNewNode fuel (Some a) (Some new) cf h = Inr (SUCCESS, ?h')"
          using ha Br.prems(6) False nlt Leaf ne(1)
          by (simp add: k deref_Some assign_Some)
        moreover have "repr ?h' None (plug (Br new RED Leaf x Leaf) (InRight a c l d # fs))"
          using Br.prems(1,2) ne di by (simp add: repr_plug)
        moreover have "dom ?h' = dom h"
          using ha Br.prems(6) by auto
        ultimately show ?thesis
          using False nlt Leaf by simp
      next
        case (Br ra rc rl rd rr)
        have "case descend cf x r (InRight a c l d # fs) of
                None \<Rightarrow> addNewNode k (rootp r) (Some new) cf h = Inr (FAILURE, h)
              | Some fs' \<Rightarrow>
                  (\<exists>h'. addNewNode k (rootp r) (Some new) cf h = Inr (SUCCESS, h') \<and>
                     repr h' None (plug (Br new RED Leaf x Leaf) fs') \<and> dom h' = dom h)"
          using Br.prems Br k(3)
          by (intro Br.IH(2)) simp_all
        moreover have "addNewNode fuel (Some a) (Some new) cf h = addNewNode k (rootp r) (Some new) cf h"
          using ha Br.prems(6) False nlt Br by (simp add: k deref_Some)
        ultimately show ?thesis
          using False nlt by (simp split: option.splits)
      qed
    qed
  qed
qed

lemma length_addrs: "length (addrs t) = length (inorder t)"
  by (induction t) auto

lemma height_le_length: "height t \<le> length (inorder t)"
  by (induction t) auto

lemma plug_Leaf_Nil: "plug t fs = Leaf \<Longrightarrow> fs = [] \<and> t = Leaf"
  by (induction t fs rule: plug.induct) auto

lemma addToRBTree_dup:
  assumes to: "total_order (compFunc (tree s))" and inv: "rbt_inv s t"
      and fr: "nodes s a = None" and fu: "height t < fuel"
      and dup: "descend (compFunc (tree s)) d t [] = None"
  shows "addToRBTree fuel s d (Some a) = Inr (FAILURE, s)"
proof -
  let ?cf = "compFunc (tree s)"
  let ?new = "\<lparr>parent = None, left = None, right = None, color = RED, data = d\<rparr>"
  let ?h = "(nodes s)(a \<mapsto> ?new)"
  have hl: "holds s t" using inv by (simp add: rbt_inv_def)
  have an: "a \<notin> set (addrs t)" using hl fr by (auto simp: holds_def)
  have t: "t \<noteq> Leaf" using dup by (cases t) auto
  then obtain ra where rt: "root (tree s) = Some ra" "rootp t = Some ra"
    using hl by (cases t) (auto simp: holds_def)
  have "case descend ?cf d t [] of
          None \<Rightarrow> addNewNode fuel (rootp t) (Some a) ?cf ?h = Inr (FAILURE, ?h)
        | Some fs' \<Rightarrow> (\<exists>h'. addNewNode fuel (rootp t) (Some a) ?cf ?h = Inr (SUCCESS, h') \<and>
             repr h' None (plug (Br a RED Leaf d Leaf) fs') \<and> dom h' = dom ?h)"
    using hl an t fu by (intro addNewNode_descend) (auto simp: holds_def)
  then have "addNewNode fuel (Some ra) (Some a) ?cf ?h = Inr (FAILURE, ?h)"
    using dup rt by simp
  moreover have "free_mem ?h (Some a) = nodes s"
    using fr by (auto simp: free_mem_def)
  ultimately show ?thesis
    using rt by (simp add: addToRBTree_def makeNewNode_def FAILURE_def)
qed

lemma addToRBTree_new:
  assumes to: "total_order (compFunc (tree s))" and inv: "rbt_inv s t"
      and fr: "nodes s a = None" and fu: "height t < fuel"
      and ds: "descend (compFunc (tree s)) d t [] = Some fs"
  shows "\<exists>s'. addToRBTree fuel s d (Some a) = Inr (SUCCESS, s') \<and>
           rbt_inv s' (fixup (Br a RED Leaf d Leaf) fs) \<and>
           size (tree s') = Suc (size (tree s)) \<and>
           compFunc (tree s') = compFunc (tree s) \<and> freed s' = freed s"
proof -
  let ?cf = "compFunc (tree s)"
  let ?new = "\<lparr>parent = None, left = None, right = None, color = RED, data = d\<rparr>"
  let ?h = "(nodes s)(a \<mapsto> ?new)"
  let ?n = "Br a RED Leaf d Leaf"
  have hl: "holds s t" and cb: "col t = BLACK" and ic: "invc t" and ih: "invh t"
    and bs: "bst ?cf t" and sz: "size (tree s) = length (inorder t)"
    using inv by (simp_all add: rbt_inv_def)
  have an: "a \<notin> set (addrs t)" using hl fr by (auto simp: holds_def)
  have pl: "plug Leaf fs = t" using descend_plug [OF ds] by simp
  have len: "length fs < 2 * fuel" using descend_length [OF ds] fu by simp
  have dn: "distinct (addrs (plug ?n fs))" and sn: "set (addrs (plug ?n fs)) = insert a (set (addrs t))"
    using hl an pl [symmetric] by (auto simp: holds_def addrs_plug)
  have bn: "bst ?cf (plug ?n fs)"
    using descend_bounds [OF to ds] bs pl [symmetric]
    by (auto simp: bst_def inorder_plug ascending_append ascending_Cons)
  have so: "sides_ok ?cf d fs" using sides_ok_bst [OF to bn] .
  have rb: "rootBlack fs"
    using cb pl [symmetric] by (auto simp: rootBlack_def col_plug not_BLACK split: if_splits)
  have ci: "cinvc fs" "cinvh 0 fs" using ic ih pl [symmetric] by (auto simp: invc_plug invh_plug)
  have "\<exists>s1. repr (nodes s1) None (plug ?n fs) \<and> root (tree s1) = rootp (plug ?n fs) \<and>
          dom (nodes s1) = insert a (dom (nodes s)) \<and> tree s1 = (tree s)\<lparr>root := rootp (plug ?n fs)\<rparr> \<and>
          freed s1 = freed s \<and>
          addToRBTree fuel s d (Some a) =
            bindE (modifyNode fuel (Some a) s1) (\<lambda>s2.
              Inr (SUCCESS, s2\<lparr>tree := (tree s2)\<lparr>size := size (tree s2) + 1\<rparr>\<rparr>))"
  proof (cases t)
    case Leaf
    then have "fs = []" using ds by simp
    moreover have "root (tree s) = None" using hl Leaf by (simp add: holds_def)
    ultimately show ?thesis
      by (intro exI [of _ "s\<lparr>nodes := ?h, tree := (tree s)\<lparr>root := Some a\<rparr>\<rparr>"])
        (simp add: addToRBTree_def makeNewNode_def)
  next
    case (Br ta tc tl td tr)
    then have t: "t \<noteq> Leaf" by simp
    then have fsn: "fs \<noteq> []" using pl by auto
    have rt: "root (tree s) = rootp t" using hl by (simp add: holds_def)
    have "case descend ?cf d t [] of
            None \<Rightarrow> addNewNode fuel (rootp t) (Some a) ?cf ?h = Inr (FAILURE, ?h)
          | Some fs' \<Rightarrow> (\<exists>h'. addNewNode fuel (rootp t) (Some a) ?cf ?h = Inr (SUCCESS, h') \<and>
               repr h' None (plug (Br a RED Leaf d Leaf) fs') \<and> dom h' = dom ?h)"
      using hl an t fu by (intro addNewNode_descend) (auto simp: holds_def)
    then obtain h' where h': "addNewNode fuel (rootp t) (Some a) ?cf ?h = Inr (SUCCESS, h')"
        "repr h' None (plug ?n fs)" "dom h' = dom ?h"
      using ds by auto
    have "rootp (plug ?n fs) = rootp t"
      using fsn pl [symmetric] by (simp add: rootp_plug)
    then show ?thesis
      using h' rt Br
      by (intro exI [of _ "s\<lparr>nodes := h'\<rparr>"])
        (simp add: addToRBTree_def makeNewNode_def SUCCESS_def)
  qed
  then obtain s1 where s1: "repr (nodes s1) None (plug ?n fs)" "root (tree s1) = rootp (plug ?n fs)"
      "dom (nodes s1) = insert a (dom (nodes s))" "tree s1 = (tree s)\<lparr>root := rootp (plug ?n fs)\<rparr>"
      "freed s1 = freed s"
      "addToRBTree fuel s d (Some a) =
         bindE (modifyNode fuel (Some a) s1) (\<lambda>s2.
           Inr (SUCCESS, s2\<lparr>tree := (tree s2)\<lparr>size := size (tree s2) + 1\<rparr>\<rparr>))"
    by blast
  have so1: "sides_ok (compFunc (tree s1)) d fs" using so s1(4) by simp
  obtain s2 where s2: "modifyNode fuel (Some a) s1 = Inr s2"
      "repr (nodes s2) None (fixup ?n fs)" "root (tree s2) = rootp (fixup ?n fs)" "keeps s1 s2"
    using modifyNode_fixup [OF refl s1(1) s1(2) dn so1 rb len] by blast
  let ?s' = "s2\<lparr>tree := (tree s2)\<lparr>size := size (tree s2) + 1\<rparr>\<rparr>"
  have res: "addToRBTree fuel s d (Some a) = Inr (SUCCESS, ?s')"
    using s1(6) s2(1) by simp
  have fi: "invc (fixup ?n fs) \<and> invh (fixup ?n fs) \<and> col (fixup ?n fs) = BLACK"
    using ci rb by (intro fixup_inv) simp_all
  have io: "inorder (fixup ?n fs) = inorder (plug ?n fs)" by (simp add: inorder_fixup)
  have ad: "addrs (fixup ?n fs) = addrs (plug ?n fs)" by (simp add: addrs_fixup)
  have "holds ?s' (fixup ?n fs)"
    using s2 s1(3) dn sn hl by (simp add: holds_def ad keeps_def)
  moreover have "bst (compFunc (tree ?s')) (fixup ?n fs)"
    using bn s2(4) s1(4) by (simp add: bst_def io keeps_def)
  moreover have "size (tree ?s') = length (inorder (fixup ?n fs))"
    using s2(4) s1(4) sz pl [symmetric] by (simp add: io keeps_def inorder_plug)
  moreover have "size (tree ?s') = Suc (size (tree s))" "compFunc (tree ?s') = ?cf" "freed ?s' = freed s"
    using s2(4) s1(4,5) by (simp_all add: keeps_def)
  ultimately show ?thesis
    using res fi by (auto simp: rbt_inv_def)
qed

section \<open>More fuel changes no result\<close>

lemma bindE_eq_Inr: "(bindE m f = Inr r) = (\<exists>x. m = Inr x \<and> f x = Inr r)"
  by (cases m) simp_all

lemma addNewNode_fuel_Suc:
  "addNewNode k p q cf h = Inr r \<Longrightarrow> addNewNode (Suc k) p q cf h = Inr r"
proof (induction k arbitrary: p)
  case 0
  then show ?case by simp
next
  case (Suc k)
  obtain an where an: "deref h q = Inr an"
    using Suc.prems by (cases "deref h q") simp_all
  obtain cn where cn: "deref h p = Inr cn"
    using Suc.prems an by (cases "deref h p") simp_all
  have IH: "addNewNode k p' q cf h = Inr r \<Longrightarrow> addNewNode (Suc k) p' q cf h = Inr r" for p'
    by (rule Suc.IH)
  show ?case
    using Suc.prems
    apply (subst addNewNode.simps)
    apply (subst (asm) addNewNode.simps)
    apply (simp only: an cn bindE_Inr Let_def)
    apply (auto simp del: addNewNode.simps split: if_splits simp: IH)
    done
qed

lemma addNewNode_fuel:
  "k \<le> k' \<Longrightarrow> addNewNode k p q cf h = Inr r \<Longrightarrow> addNewNode k' p q cf h = Inr r"
  by (induction k' rule: dec_induct) (simp_all del: addNewNode.simps add: addNewNode_fuel_Suc)

lemma bindE_assoc: "bindE (bindE m f) g = bindE m (\<lambda>x. bindE (f x) g)"
  by (cases m) simp_all

lemma bindE_Inr_right [simp]: "bindE m Inr = m"
  by (cases m) simp_all

lemma bindE_if: "bindE (if c then a else b) f = (if c then bindE a f else bindE b f)"
  by simp

lemma modifyNode_step:
  "modifyNode (Suc k) p s =
     bindE (modifyStep p s) (\<lambda>r. case r of Inl s' \<Rightarrow> Inr s' | Inr (g, s1) \<Rightarrow> modifyNode k g s1)"
  by (simp add: modifyStep_def bindE_assoc bindE_if cong: if_cong)

lemma modifyNode_fuel_Suc: "modifyNode k p s = Inr s' \<Longrightarrow> modifyNode (Suc k) p s = Inr s'"
proof (induction k arbitrary: p s)
  case 0
  then show ?case by simp
next
  case (Suc k)
  show ?case
  proof (cases "modifyStep p s")
    case (Inl e)
    then show ?thesis
      using Suc.prems by (simp only: modifyNode_step bindE_Inl)
  next
    case (Inr r)
    show ?thesis
    proof (cases r)
      case (Inl s1)
      then show ?thesis
        using Suc.prems Inr by (simp only: modifyNode_step bindE_Inr sum.case)
    next
      case r: (Inr gs)
      obtain g s1 where gs: "gs = (g, s1)" by (cases gs)
      have "modifyNode k g s1 = Inr s'"
        using Suc.prems Inr r gs by (simp only: modifyNode_step bindE_Inr sum.case prod.case)
      then have "modifyNode (Suc k) g s1 = Inr s'" by (rule Suc.IH)
      then show ?thesis
        using Inr r gs by (simp only: modifyNode_step [of "Suc k"] bindE_Inr sum.case prod.case)
    qed
  qed
qed

lemma modifyNode_fuel:
  "k \<le> k' \<Longrightarrow> modifyNode k p s = Inr s' \<Longrightarrow> modifyNode k' p s = Inr s'"
  by (induction k' rule: dec_induct) (simp_all del: modifyNode.simps add: modifyNode_fuel_Suc)

lemma addToRBTree_fuel:
  assumes "addToRBTree k s d al = Inr r" "k \<le> k'"
  shows "addToRBTree k' s d al = Inr r"
proof (cases al)
  case None
  with assms show ?thesis by (simp add: addToRBTree_def makeNewNode_def)
next
  case (Some a)
  show ?thesis
  proof (cases "root (tree s)")
    case None
    with assms Some show ?thesis
      by (auto simp: addToRBTree_def makeNewNode_def bindE_eq_Inr simp del: modifyNode.simps
          dest: modifyNode_fuel [OF assms(2)])
  next
    case rt: (Some ra)
    with assms Some show ?thesis
      by (auto simp: addToRBTree_def makeNewNode_def bindE_eq_Inr
          simp del: modifyNode.simps addNewNode.simps
          dest!: modifyNode_fuel [OF assms(2)] addNewNode_fuel [OF assms(2)] split: if_splits)
  qed
qed

section \<open>Traversal\<close>

lemma visit_append:
  "visit f (xs @ ys) st =
     (if fst (visit f xs st) = FAILURE then visit f xs st else visit f ys (snd (visit f xs st)))"
  by (induction xs arbitrary: st) (auto simp: Let_def FAILURE_def SUCCESS_def split: prod.splits)

lemma visit_result: "fst (visit f xs st) = FAILURE \<or> fst (visit f xs st) = SUCCESS"
  by (induction xs arbitrary: st) (auto simp: Let_def split: prod.splits)

lemma forEachNode_visit:
  assumes "repr h par t" "t \<noteq> Leaf" "height t \<le> fuel"
  shows "forEachNode fuel h (rootp t) f st =
           (Inr (fst (visit f (inorder t) st)), snd (visit f (inorder t) st))"
  using assms
proof (induction t arbitrary: fuel st par)
  case Leaf
  then show ?case by simp
next
  case (Br a c l d r)
  obtain k where k: "fuel = Suc k" "height l \<le> k" "height r \<le> k"
    using Br.prems(3) by (cases fuel) auto
  have ha: "h a = Some \<lparr>parent = par, left = rootp l, right = rootp r, color = c, data = d\<rparr>"
    using Br.prems(1) by simp
  have L: "(if rootp l \<noteq> None then forEachNode k h (rootp l) f st else (Inr SUCCESS, st))
             = (Inr (fst (visit f (inorder l) st)), snd (visit f (inorder l) st))" for st
    using Br.IH(1) [of "Some a" k st] Br.prems(1) k(2) by (cases l) simp_all
  have R: "(if rootp r \<noteq> None then forEachNode k h (rootp r) f st else (Inr SUCCESS, st))
             = (Inr (fst (visit f (inorder r) st)), snd (visit f (inorder r) st))" for st
    using Br.IH(2) [of "Some a" k st] Br.prems(1) k(3) by (cases r) simp_all
  obtain r1 st1 where v1: "visit f (inorder l) st = (r1, st1)"
    by (cases "visit f (inorder l) st")
  obtain r2 a2 where f2: "f d (fst st1) = (r2, a2)"
    by (cases "f d (fst st1)")
  obtain r3 st3 where v3: "visit f (inorder r) (a2, snd st1 @ [d]) = (r3, st3)"
    by (cases "visit f (inorder r) (a2, snd st1 @ [d])")
  have r3: "r3 = FAILURE \<or> r3 = SUCCESS"
    using visit_result [of f "inorder r" "(a2, snd st1 @ [d])"] v3 by simp
  have r1: "r1 = FAILURE \<or> r1 = SUCCESS"
    using visit_result [of f "inorder l" st] v1 by simp
  have da: "deref h (Some a) = Inr \<lparr>parent = par, left = rootp l, right = rootp r, color = c, data = d\<rparr>"
    using ha by (rule deref_Some)
  show ?case
    using r1 r3
    apply (simp only: k forEachNode.simps rootp.simps da sum.case Node.select_convs L R)
    apply (auto simp: v1 f2 v3 visit_append FAILURE_def SUCCESS_def Let_def)
    done
qed

lemma signals_length [simp]: "length (signals f xs c) = length xs"
  by (induction xs arbitrary: c) (auto split: prod.splits)

lemma visit_stop:
  assumes "1 \<le> k" "k \<le> length xs" "signals f xs c ! (k - 1) = 0"
      and "\<forall>i<k - 1. signals f xs c ! i \<noteq> 0"
  shows "\<exists>c'. visit f xs (c, log) = (FAILURE, c', log @ take k xs)"
  using assms
proof (induction xs arbitrary: k c log)
  case Nil
  then show ?case by simp
next
  case (Cons x xs)
  obtain r c1 where f: "f x c = (r, c1)" by (cases "f x c")
  show ?case
  proof (cases "k = 1")
    case True
    then show ?thesis using Cons.prems f by simp
  next
    case False
    then obtain j where j: "k = Suc j" "1 \<le> j" using Cons.prems(1) by (cases k) auto
    have r: "r \<noteq> 0" using Cons.prems(4) f j by (auto dest: spec [of _ 0])
    have "\<forall>i<j - 1. signals f xs c1 ! i \<noteq> 0"
    proof (intro allI impI)
      fix i assume "i < j - 1"
      then have "signals f (x # xs) c ! Suc i \<noteq> 0"
        using Cons.prems(4) j by simp
      then show "signals f xs c1 ! i \<noteq> 0" using f by simp
    qed
    moreover have "signals f xs c1 ! (j - 1) = 0"
      using Cons.prems(3) f j by (cases j) simp_all
    ultimately obtain c' where "visit f xs (c1, log @ [x]) = (FAILURE, c', (log @ [x]) @ take j xs)"
      using Cons.IH [of j c1 "log @ [x]"] j Cons.prems(2) by auto
    then show ?thesis using f r j by simp
  qed
qed

lemma visit_all:
  assumes "\<forall>d c. fst (f d c) \<noteq> 0"
  shows "\<exists>c'. visit f xs (c, log) = (SUCCESS, c', log @ xs)"
proof (induction xs arbitrary: c log)
  case Nil
  then show ?case by simp
next
  case (Cons x xs)
  obtain r c1 where f: "f x c = (r, c1)" by (cases "f x c")
  then have "r \<noteq> 0" using assms [rule_format, of x c] by simp
  then show ?case using Cons [of c1 "log @ [x]"] f by simp
qed

lemma visit_prefix: "\<exists>j. snd (snd (visit f xs (c, log))) = log @ take j xs"
proof (induction xs arbitrary: c log)
  case Nil
  then show ?case by simp
next
  case (Cons x xs)
  obtain r c1 where f: "f x c = (r, c1)" by (cases "f x c")
  obtain j where j: "snd (snd (visit f xs (c1, log @ [x]))) = (log @ [x]) @ take j xs"
    using Cons [of c1 "log @ [x]"] by blast
  show ?case
  proof (cases "r = 0")
    case True
    then show ?thesis using f by (intro exI [of _ 1]) simp
  next
    case False
    then show ?thesis using f j by (intro exI [of _ "Suc j"]) simp
  qed
qed

section \<open>Membership\<close>

lemma containsLoop_lookup:
  assumes "repr h par t" "height t < fuel"
  shows "\<exists>calls'. containsLoop fuel cf h (rootp t) x calls =
           Inr (if lookup cf x t then SUCCESS else FAILURE, calls')"
  using assms
proof (induction t arbitrary: fuel par calls)
  case Leaf
  then show ?case by (cases fuel) simp_all
next
  case (Br a c l d r)
  obtain k where k: "fuel = Suc k" "height l < k" "height r < k"
    using Br.prems(2) by (cases fuel) auto
  have da: "deref h (Some a) = Inr \<lparr>parent = par, left = rootp l, right = rootp r, color = c, data = d\<rparr>"
    using Br.prems(1) by (simp add: deref_Some)
  have L: "\<exists>calls'. containsLoop k cf h (rootp l) x cs =
             Inr (if lookup cf x l then SUCCESS else FAILURE, calls')" for cs
    using Br.IH(1) [of "Some a" k cs] Br.prems(1) k(2) by simp
  have R: "\<exists>calls'. containsLoop k cf h (rootp r) x cs =
             Inr (if lookup cf x r then SUCCESS else FAILURE, calls')" for cs
    using Br.IH(2) [of "Some a" k cs] Br.prems(1) k(3) by simp
  show ?case
  proof (cases "d = None")
    case True
    then show ?thesis by (auto simp: k da)
  next
    case False
    show ?thesis
    proof (cases "cf d x = 0")
      case True
      then show ?thesis using False by (auto simp: k da)
    next
      case ne: False
      show ?thesis
      proof (cases "cf d x > 0")
        case True
        then show ?thesis
          using False ne L [of "calls @ [(d, x)]"] by (auto simp: k da)
      next
        case ngt: False
        then have "cf d x < 0" using ne by simp
        then show ?thesis
          using False ne ngt R [of "calls @ [(d, x)]"] by (auto simp: k da)
      qed
    qed
  qed
qed

lemma lookup_elem: "lookup cf x t \<Longrightarrow> \<exists>e\<in>set (inorder t). cf e x = 0"
  by (induction t) (auto split: if_splits)

lemma elem_lookup:
  assumes to: "total_order cf"
  shows "ascending cf (inorder t) \<Longrightarrow> None \<notin> set (inorder t) \<Longrightarrow>
           e \<in> set (inorder t) \<Longrightarrow> cf e x = 0 \<Longrightarrow> lookup cf x t"
proof (induction t)
  case Leaf
  then show ?case by simp
next
  case (Br a c l d r)
  have al: "ascending cf (inorder l)" and ar: "ascending cf (inorder r)"
    and ld: "\<forall>y\<in>set (inorder l). cf y d < 0" and dr: "\<forall>y\<in>set (inorder r). cf d y < 0"
    using Br.prems(1) by (auto simp: ascending_append ascending_Cons)
  have xe: "cf x e = 0" using Br.prems(4) to_eq_sym [OF to, of e x] by simp
  show ?case
  proof (cases "cf d x = 0")
    case True
    then show ?thesis using Br.prems(2) by (cases d) auto
  next
    case ne: False
    then have ed: "e \<noteq> d" using Br.prems(4) by auto
    show ?thesis
    proof (cases "cf d x > 0")
      case True
      have "e \<notin> set (inorder r)"
      proof
        assume "e \<in> set (inorder r)"
        then have "cf d e < 0" using dr by simp
        then have "cf d x < 0" using to_lt_le [OF to, of d e x] Br.prems(4) by simp
        then show False using True by simp
      qed
      then have "e \<in> set (inorder l)" using Br.prems(3) ed by auto
      then have "lookup cf x l" using Br.IH(1) al Br.prems(2,4) by simp
      then show ?thesis using True Br.prems(2) by (cases d) auto
    next
      case ngt: False
      then have lt: "cf d x < 0" using ne by simp
      have "e \<notin> set (inorder l)"
      proof
        assume "e \<in> set (inorder l)"
        then have "cf e d < 0" using ld by simp
        then have "cf x d < 0" using to_le_lt [OF to, of x e d] xe by simp
        then show False using lt to_asym [OF to, of x d] by simp
      qed
      then have "e \<in> set (inorder r)" using Br.prems(3) ed by auto
      then have "lookup cf x r" using Br.IH(2) ar Br.prems(2,4) by simp
      then show ?thesis using ngt Br.prems(2) by (cases d) auto
    qed
  qed
qed

section \<open>Teardown\<close>

lemma released_Leaf [simp]: "released Leaf s = s"
  by (simp add: released_def restrict_map_def)

lemma freeNodes_released:
  assumes "repr (nodes s) par t" "distinct (addrs t)" "t \<noteq> Leaf" "height t \<le> fuel"
  shows "freeNodes fuel (rootp t) s = Inr (released t s)"
  using assms
proof (induction t arbitrary: s fuel par)
  case Leaf
  then show ?case by simp
next
  case (Br a c l d r)
  obtain k where k: "fuel = Suc k" "height l \<le> k" "height r \<le> k"
    using Br.prems(4) by (cases fuel) auto
  let ?n = "\<lparr>parent = par, left = rootp l, right = rootp r, color = c, data = d\<rparr>"
  have ha: "nodes s a = Some ?n"
    and rl: "repr (nodes s) (Some a) l" and rr: "repr (nodes s) (Some a) r"
    using Br.prems(1) by simp_all
  have di: "a \<notin> set (addrs l)" "a \<notin> set (addrs r)" "distinct (addrs l)" "distinct (addrs r)"
      "set (addrs l) \<inter> set (addrs r) = {}"
    using Br.prems(2) by auto
  let ?s1 = "released l s"
  let ?s2 = "released r ?s1"
  have L: "(if rootp l \<noteq> None then freeNodes k (rootp l) s else Inr s) = Inr ?s1"
    using Br.IH(1) [OF rl di(3) _ k(2)] by (cases l) simp_all
  have rr1: "repr (nodes ?s1) (Some a) r"
    using rr di(5) by (subst repr_frame [of r _ "nodes s"]) (auto simp: released_def restrict_map_def)
  have R: "(if rootp r \<noteq> None then freeNodes k (rootp r) ?s1 else Inr ?s1) = Inr ?s2"
    using Br.IH(2) [OF rr1 di(4) _ k(3)] by (cases r) simp_all
  have d0: "deref (nodes s) (Some a) = Inr ?n"
    using ha by (simp add: deref_Some)
  have d1: "deref (nodes ?s1) (Some a) = Inr ?n"
    using ha di(1) by (simp add: deref_Some released_def)
  have h2: "nodes ?s2 a = Some ?n"
    using ha di(1,2) by (simp add: released_def)
  have d2: "deref (nodes ?s2) (Some a) = Inr ?n"
    using h2 by (simp add: deref_Some)
  have a2: "assign (nodes ?s2) (Some a) f = Inr ((nodes ?s2)(a \<mapsto> f ?n))" for f
    using h2 by (simp add: assign_Some)
  have "freeNodes fuel (Some a) s =
          Inr ((if d \<noteq> None
                then ?s2\<lparr>nodes := (nodes ?s2)(a \<mapsto> ?n\<lparr>data := None\<rparr>), freed := freed ?s2 @ [d]\<rparr>
                else ?s2)\<lparr>nodes := free_mem (nodes (if d \<noteq> None
                then ?s2\<lparr>nodes := (nodes ?s2)(a \<mapsto> ?n\<lparr>data := None\<rparr>), freed := freed ?s2 @ [d]\<rparr>
                else ?s2)) (Some a)\<rparr>)"
    apply (simp only: k freeNodes.simps)
    apply (simp only: d0 bindE_Inr Node.select_convs L)
    apply (simp only: d1 bindE_Inr Node.select_convs R)
    apply (simp only: d2 bindE_Inr Node.select_convs a2)
    apply simp
    done
  also have "\<dots> = Inr (released (Br a c l d r) s)"
    by (auto simp: released_def free_mem_def restrict_map_def fun_eq_iff)
  finally show ?case by simp
qed

section \<open>The states built by insertions\<close>

lemma meta_eq_refl [simp]: "meta_eq s s"
  by (simp add: meta_eq_def)

lemma meta_eq_nodes [simp]: "meta_eq s (s'\<lparr>nodes := h\<rparr>) = meta_eq s s'"
  by (simp add: meta_eq_def)

lemma meta_eq_nodes_left [simp]: "meta_eq (s\<lparr>nodes := h\<rparr>) s' = meta_eq s s'"
  by (simp add: meta_eq_def)

lemma leftLeftSwitch_meta: "leftLeftSwitch p g s = Inr s' \<Longrightarrow> meta_eq s s'"
  by (auto simp: leftLeftSwitch_def bindE_eq_Inr meta_eq_def split: if_splits)

lemma rightRightSwitch_meta: "rightRightSwitch p g s = Inr s' \<Longrightarrow> meta_eq s s'"
  by (auto simp: rightRightSwitch_def bindE_eq_Inr meta_eq_def split: if_splits)

lemma modifyRedBlack_meta: "modifyRedBlack n p g s = Inr s' \<Longrightarrow> meta_eq s s'"
  by (auto simp: modifyRedBlack_def bindE_eq_Inr split: if_splits
      dest!: leftLeftSwitch_meta rightRightSwitch_meta)

lemma modifyStep_meta:
  "modifyStep p s = Inr r \<Longrightarrow> (case r of Inl s' \<Rightarrow> meta_eq s s' | Inr (g, s1) \<Rightarrow> meta_eq s s1)"
  by (auto simp: modifyStep_def bindE_eq_Inr split: if_splits dest!: modifyRedBlack_meta)

lemma meta_eq_trans: "meta_eq s s1 \<Longrightarrow> meta_eq s1 s2 \<Longrightarrow> meta_eq s s2"
  by (simp add: meta_eq_def)

lemma modifyNode_meta: "modifyNode k p s = Inr s' \<Longrightarrow> meta_eq s s'"
proof (induction k arbitrary: p s)
  case 0
  then show ?case by simp
next
  case (Suc k)
  from Suc.prems obtain r where r: "modifyStep p s = Inr r"
      "(case r of Inl s1 \<Rightarrow> Inr s1 | Inr (g, s1) \<Rightarrow> modifyNode k g s1) = Inr s'"
    by (auto simp only: modifyNode_step bindE_eq_Inr)
  show ?case
  proof (cases r)
    case (Inl s1)
    then show ?thesis using r modifyStep_meta [OF r(1)] by simp
  next
    case (Inr gs)
    then show ?thesis
      using r modifyStep_meta [OF r(1)] Suc.IH
      by (cases gs) (auto intro: meta_eq_trans simp del: modifyNode.simps)
  qed
qed

lemma addToRBTree_count:
  assumes "addToRBTree fuel s d alloc = Inr (r, s')"
  shows "(r = FAILURE \<and> size (tree s') = size (tree s)) \<or>
         (r = SUCCESS \<and> size (tree s') = Suc (size (tree s)))"
  using assms
  by (auto simp: addToRBTree_def makeNewNode_def bindE_eq_Inr meta_eq_def Let_def
      simp del: modifyNode.simps addNewNode.simps
      split: option.splits if_splits dest!: modifyNode_meta)


lemma rbt_inv_new: "rbt_inv (newRBTree cf) Leaf"
  by (simp add: rbt_inv_def holds_def newRBTree_def bst_def ascending_def START_SIZE_def)

lemma descend_cases:
  obtains (dup) "descend cf d t [] = None" | (new) fs where "descend cf d t [] = Some fs"
  by (cases "descend cf d t []") auto

lemma addToRBTree_inv:
  assumes to: "total_order (compFunc (tree s))" and inv: "rbt_inv s t"
      and fr: "fresh (nodes s) alloc" and fu: "size (tree s) < fuel"
  shows "\<exists>r s' t'. addToRBTree fuel s d alloc = Inr (r, s') \<and> rbt_inv s' t' \<and>
           compFunc (tree s') = compFunc (tree s) \<and> freed s' = freed s"
proof (cases alloc)
  case None
  then show ?thesis
    using inv by (auto simp: addToRBTree_def makeNewNode_def)
next
  case (Some a)
  then have fa: "nodes s a = None" using fr by (simp add: fresh_def)
  have h: "height t < fuel"
    using fu inv height_le_length [of t] by (simp add: rbt_inv_def)
  show ?thesis
  proof (cases rule: descend_cases [of "compFunc (tree s)" d t])
    case dup
    then show ?thesis
      using addToRBTree_dup [OF to inv fa h dup] inv Some by auto
  next
    case (new fs)
    then show ?thesis
      using addToRBTree_new [OF to inv fa h new] Some by blast
  qed
qed

lemma built_inv:
  assumes to: "total_order cf"
  shows "built cf n s \<Longrightarrow> \<exists>t. rbt_inv s t \<and> compFunc (tree s) = cf \<and> freed s = []"
proof (induction rule: built.induct)
  case built_new
  show ?case
    using rbt_inv_new [of cf] by (auto simp: newRBTree_def)
next
  case (built_add n s alloc fuel d r s')
  then obtain t where t: "rbt_inv s t" "compFunc (tree s) = cf" "freed s = []"
    by blast
  let ?fuel = "max fuel (Suc (size (tree s)))"
  have "addToRBTree ?fuel s d alloc = Inr (r, s')"
    using addToRBTree_fuel [OF built_add.hyps(3)] by simp
  moreover have "\<exists>r1 s1 t1. addToRBTree ?fuel s d alloc = Inr (r1, s1) \<and> rbt_inv s1 t1 \<and>
      compFunc (tree s1) = compFunc (tree s) \<and> freed s1 = freed s"
    using to t built_add.hyps(2) by (intro addToRBTree_inv) simp_all
  ultimately show ?case
    using t by auto
qed

lemma repr_data: "repr h par t \<Longrightarrow> (\<lambda>a. data (the (h a))) ` set (addrs t) = set (inorder t)"
proof (induction t arbitrary: par)
  case Leaf
  then show ?case by simp
next
  case (Br a c l d r)
  have "(\<lambda>a. data (the (h a))) ` set (addrs l) = set (inorder l)"
    and "(\<lambda>a. data (the (h a))) ` set (addrs r) = set (inorder r)"
    using Br.IH [of "Some a"] Br.prems by simp_all
  then show ?case
    using Br.prems by (simp add: image_Un)
qed

lemma elements_holds: "holds s t \<Longrightarrow> elements s = set (inorder t)"
proof -
  assume h: "holds s t"
  have "data ` ran (nodes s) = (\<lambda>a. data (the (nodes s a))) ` dom (nodes s)"
    by (force simp: ran_def dom_def image_def)
  then show ?thesis
    using h repr_data [of "nodes s" None t] by (simp add: elements_def holds_def)
qed

lemma addToRBTree_failure_count:
  "addToRBTree fuel s d alloc = Inr (FAILURE, s') \<Longrightarrow> size (tree s') = size (tree s)"
  using addToRBTree_count [of fuel s d alloc FAILURE s'] by (simp add: FAILURE_def SUCCESS_def)

section \<open>The depth of the fixup\<close>

lemma bindE_eq_fuel:
  "(bindE m f = Inl OutOfFuel) = (m = Inl OutOfFuel \<or> (\<exists>x. m = Inr x \<and> f x = Inl OutOfFuel))"
  by (cases m) simp_all

lemma deref_nf [simp]: "deref h p \<noteq> Inl OutOfFuel"
  by (simp add: deref_def split: option.splits)

lemma assign_nf [simp]: "assign h p f \<noteq> Inl OutOfFuel"
  by (simp add: assign_def split: option.splits)

lemma isRightChild_nf [simp]: "isRightChild cf h p \<noteq> Inl OutOfFuel"
  by (auto simp: isRightChild_def bindE_eq_fuel split: if_splits prod.splits)

lemma findUncle_nf [simp]: "findUncle p s \<noteq> Inl OutOfFuel"
  by (auto simp: findUncle_def bindE_eq_fuel split: if_splits prod.splits)

lemma leftRightSwitch_nf [simp]: "leftRightSwitch n p g h \<noteq> Inl OutOfFuel"
  by (auto simp: leftRightSwitch_def bindE_eq_fuel split: if_splits prod.splits)

lemma rightLeftSwitch_nf [simp]: "rightLeftSwitch n p g h \<noteq> Inl OutOfFuel"
  by (auto simp: rightLeftSwitch_def bindE_eq_fuel split: if_splits prod.splits)

lemma leftLeftSwitch_nf [simp]: "leftLeftSwitch p g s \<noteq> Inl OutOfFuel"
  by (auto simp: leftLeftSwitch_def bindE_eq_fuel split: if_splits prod.splits)

lemma rightRightSwitch_nf [simp]: "rightRightSwitch p g s \<noteq> Inl OutOfFuel"
  by (auto simp: rightRightSwitch_def bindE_eq_fuel split: if_splits prod.splits)

lemma modifyRedBlack_nf [simp]: "modifyRedBlack n p g s \<noteq> Inl OutOfFuel"
  by (auto simp: modifyRedBlack_def bindE_eq_fuel split: if_splits prod.splits)

lemma modifyStep_nf [simp]: "modifyStep p s \<noteq> Inl OutOfFuel"
  by (auto simp: modifyStep_def bindE_eq_fuel split: if_splits prod.splits)

lemma repr_shape: "repr h par t \<Longrightarrow> shape h par t"
  by (induction t arbitrary: par) auto

lemma shape_plug: "shape h None (plug t fs) \<Longrightarrow> shape h (cparent fs) t"
proof (induction fs arbitrary: t)
  case Nil
  then show ?case by simp
next
  case (Cons f fs)
  show ?case
  proof (cases f)
    case (InLeft p pc pd sib)
    then show ?thesis using Cons.IH [of "Br p pc t pd sib"] Cons.prems by simp
  next
    case (InRight p pc sib pd)
    then show ?thesis using Cons.IH [of "Br p pc sib pd t"] Cons.prems by simp
  qed
qed

lemma shape_assign_color:
  "assign h q (\<lambda>x. x\<lparr>color := c\<rparr>) = Inr h' \<Longrightarrow> shape h' par t = shape h par t"
  by (induction t arbitrary: par) (auto simp: assign_def split: option.splits if_splits)

lemma plug_frame: "\<exists>c l d r. plug t (f # fs) = plug (Br (faddr f) c l d r) fs"
  by (cases f) auto

lemma modifyStep_up:
  assumes sh: "shape (nodes s) None (plug (Br a c l d r) fs)"
      and st: "modifyStep (Some a) s = Inr (Inr (g, s1))"
  shows "\<exists>f1 f2 fs' c2 l2 d2 r2. fs = f1 # f2 # fs' \<and> g = Some (faddr f2) \<and>
           plug (Br a c l d r) fs = plug (Br (faddr f2) c2 l2 d2 r2) fs' \<and>
           shape (nodes s1) None (plug (Br (faddr f2) c2 l2 d2 r2) fs')"
proof -
  from st obtain n p uncle h1 h2 h3 where
    n: "deref (nodes s) (Some a) = Inr n" and p: "deref (nodes s) (parent n) = Inr p" and
    h1: "assign (nodes s) (parent n) (\<lambda>x. x\<lparr>color := BLACK\<rparr>) = Inr h1" and
    h2: "assign h1 uncle (\<lambda>x. x\<lparr>color := BLACK\<rparr>) = Inr h2" and
    h3: "assign h2 (parent p) (\<lambda>x. x\<lparr>color := RED\<rparr>) = Inr h3" and
    g: "g = parent p" and s1: "s1 = s\<lparr>nodes := h3\<rparr>"
    by (auto simp: modifyStep_def bindE_eq_Inr split: if_splits)
  have pn: "parent n = cparent fs"
    using shape_plug [OF sh] n by (auto simp: deref_def split: option.splits)
  obtain f1 fs1 where fs: "fs = f1 # fs1"
    using p pn by (cases fs) auto
  obtain c1 l1 d1 r1 where t1: "plug (Br a c l d r) fs = plug (Br (faddr f1) c1 l1 d1 r1) fs1"
    using plug_frame [of "Br a c l d r" f1 fs1] fs by auto
  have pp: "parent p = cparent fs1"
    using shape_plug [of "nodes s" "Br (faddr f1) c1 l1 d1 r1" fs1] sh t1 p pn fs
    by (auto simp: deref_def split: option.splits)
  obtain f2 fs' where fs1: "fs1 = f2 # fs'"
    using h3 pp by (cases fs1) auto
  obtain c2 l2 d2 r2 where t2: "plug (Br a c l d r) fs = plug (Br (faddr f2) c2 l2 d2 r2) fs'"
    using plug_frame [of "Br (faddr f1) c1 l1 d1 r1" f2 fs'] fs1 t1 by auto
  have "shape h3 None (plug (Br a c l d r) fs)"
    using sh shape_assign_color [OF h1] shape_assign_color [OF h2] shape_assign_color [OF h3]
    by simp
  then show ?thesis
    using fs fs1 g pp t2 s1 by auto
qed

section \<open>Facts for the claims\<close>

lemma built_size: "built cf n s \<Longrightarrow> size (tree s) = n"
proof (induction rule: built.induct)
  case built_new
  show ?case by (simp add: newRBTree_def START_SIZE_def)
next
  case (built_add n s alloc fuel d r s')
  then show ?case
    using addToRBTree_count [OF built_add.hyps(3)] by (auto simp: FAILURE_def SUCCESS_def)
qed

lemma ascending_take: "ascending cf xs \<Longrightarrow> ascending cf (take j xs)"
  by (simp add: ascending_def sorted_wrt_take)

lemma holds_Leaf: "holds s Leaf \<Longrightarrow> root (tree s) = None \<and> nodes s = Map.empty"
  by (auto simp: holds_def)

lemma holds_root: "holds s t \<Longrightarrow> (root (tree s) = None) = (t = Leaf)"
  by (cases t) (auto simp: holds_def)

lemma forEachNode_null: "snd (forEachNode fuel h None f st) = st"
  by (cases fuel) simp_all

section \<open>The elements that were inserted\<close>

lemma inserted_built: "inserted cf ds s \<Longrightarrow> built cf (length ds) s"
proof (induction rule: inserted.induct)
  case inserted_new
  show ?case by (simp add: built_new)
next
  case (inserted_add ds s alloc fuel d r s')
  show ?case
    using built_add [OF inserted_add.IH inserted_add.hyps(2,3)] by (auto split: if_splits)
qed

lemma addToRBTree_elements:
  assumes to: "total_order (compFunc (tree s))" and inv: "rbt_inv s t"
      and fr: "fresh (nodes s) alloc" and run: "addToRBTree fuel s d alloc = Inr (r, s')"
  shows "elements s' = (if r = FAILURE then elements s else insert d (elements s))"
proof (cases alloc)
  case None
  then show ?thesis
    using run by (auto simp: addToRBTree_def makeNewNode_def)
next
  case (Some a)
  let ?fuel = "max fuel (Suc (height t))"
  have fa: "nodes s a = None" using fr Some by (simp add: fresh_def)
  have h: "height t < ?fuel" by simp
  have run': "addToRBTree ?fuel s d (Some a) = Inr (r, s')"
    using addToRBTree_fuel [OF run] Some by simp
  have el: "elements s = set (inorder t)"
    using inv by (intro elements_holds) (simp add: rbt_inv_def)
  show ?thesis
  proof (cases rule: descend_cases [of "compFunc (tree s)" d t])
    case dup
    then show ?thesis
      using addToRBTree_dup [OF to inv fa h dup] run' by simp
  next
    case (new fs)
    then obtain s1 where s1: "addToRBTree ?fuel s d (Some a) = Inr (SUCCESS, s1)"
        "rbt_inv s1 (fixup (Br a RED Leaf d Leaf) fs)"
      using addToRBTree_new [OF to inv fa h new] by blast
    have "elements s1 = set (inorder (fixup (Br a RED Leaf d Leaf) fs))"
      using s1(2) by (intro elements_holds) (simp add: rbt_inv_def)
    also have "\<dots> = insert d (set (inorder (plug Leaf fs)))"
      by (simp add: inorder_fixup inorder_plug)
    also have "plug Leaf fs = t"
      using descend_plug [OF new] by simp
    finally show ?thesis
      using s1(1) run' el by (simp add: SUCCESS_def FAILURE_def)
  qed
qed

lemma inserted_elements:
  assumes to: "total_order cf"
  shows "inserted cf ds s \<Longrightarrow> elements s = set ds"
proof (induction rule: inserted.induct)
  case inserted_new
  show ?case by (simp add: elements_def newRBTree_def)
next
  case (inserted_add ds s alloc fuel d r s')
  obtain t where t: "rbt_inv s t" "compFunc (tree s) = cf"
    using built_inv [OF to inserted_built [OF inserted_add.hyps(1)]] by blast
  have "elements s' = (if r = FAILURE then elements s else insert d (elements s))"
    using to t inserted_add.hyps(2,3) by (intro addToRBTree_elements [of s t alloc fuel]) simp_all
  then show ?case
    using inserted_add.IH by auto
qed

section \<open>The fixup returns\<close>

lemma returns_Inr [simp]: "returns P (Inr x) = P x"
  by (simp add: returns_def)

lemma returns_Inl [simp]: "returns P (Inl e) = False"
  by (simp add: returns_def)

lemma returns_bind:
  "returns P m \<Longrightarrow> (\<And>x. P x \<Longrightarrow> returns Q (f x)) \<Longrightarrow> returns Q (bindE m f)"
  by (cases m) simp_all

lemma returns_weaken: "returns P m \<Longrightarrow> (\<And>x. P x \<Longrightarrow> Q x) \<Longrightarrow> returns Q m"
  by (cases m) simp_all

lemma valid_nvalid [simp]: "valid_in D p \<Longrightarrow> null_or_valid D p"
  by (cases p) (simp_all add: valid_in_def null_or_valid_def)

lemma nvalid_valid: "null_or_valid D p \<Longrightarrow> p \<noteq> None \<Longrightarrow> valid_in D p"
  by (cases p) (simp_all add: valid_in_def null_or_valid_def)

lemma deref_returns:
  "links_closed D h \<Longrightarrow> valid_in D p \<Longrightarrow> returns (\<lambda>n. deref h p = Inr n \<and> links_in D n) (deref h p)"
  by (cases p) (auto simp: links_closed_def valid_in_def deref_def split: option.splits)

lemma assign_returns:
  "links_closed D h \<Longrightarrow> valid_in D p \<Longrightarrow> (\<And>n. links_in D n \<Longrightarrow> links_in D (f n)) \<Longrightarrow>
   returns (links_closed D) (assign h p f)"
  by (cases p) (auto simp: links_closed_def valid_in_def assign_def split: option.splits)

lemma assign_parent_returns:
  "links_closed D h \<Longrightarrow> valid_in D p \<Longrightarrow> null_or_valid D q \<Longrightarrow> returns (links_closed D) (assign h p (\<lambda>x. x\<lparr>parent := q\<rparr>))"
  by (rule assign_returns) (simp_all add: links_in_def)

lemma assign_left_returns:
  "links_closed D h \<Longrightarrow> valid_in D p \<Longrightarrow> null_or_valid D q \<Longrightarrow> returns (links_closed D) (assign h p (\<lambda>x. x\<lparr>left := q\<rparr>))"
  by (rule assign_returns) (simp_all add: links_in_def)

lemma assign_right_returns:
  "links_closed D h \<Longrightarrow> valid_in D p \<Longrightarrow> null_or_valid D q \<Longrightarrow> returns (links_closed D) (assign h p (\<lambda>x. x\<lparr>right := q\<rparr>))"
  by (rule assign_returns) (simp_all add: links_in_def)

lemma assign_color_returns:
  "links_closed D h \<Longrightarrow> valid_in D p \<Longrightarrow> returns (links_closed D) (assign h p (\<lambda>x. x\<lparr>color := c\<rparr>))"
  by (rule assign_returns) (simp_all add: links_in_def)

lemmas assign_rets = assign_parent_returns assign_left_returns assign_right_returns assign_color_returns

lemma isRightChild_returns:
  assumes "links_closed D h" "valid_in D p"
  shows "returns (\<lambda>v. True) (isRightChild cf h p)"
  unfolding isRightChild_def
  apply (rule returns_bind [OF deref_returns [OF assms]])
  apply (clarsimp simp: links_in_def)
  apply (rule returns_bind [OF deref_returns [OF assms(1)]])
   apply (simp add: nvalid_valid)
  apply (clarsimp simp: links_in_def)
  apply (rule returns_bind [OF deref_returns [OF assms(1)]])
   apply (simp add: nvalid_valid)
  apply simp
  done

lemma leftRightSwitch_returns:
  assumes "links_closed D h" "valid_in D n" "valid_in D p" "valid_in D g"
  shows "returns (links_closed D) (leftRightSwitch n p g h)"
  unfolding leftRightSwitch_def
  apply (rule returns_bind [OF deref_returns [OF assms(1,2)]])
  apply (rule returns_bind [where P = "links_closed D"])
   apply (rule assign_rets; simp add: assms links_in_def)
  apply (rule returns_bind [where P = "links_closed D"])
   apply (auto intro!: assign_rets simp: assms links_in_def nvalid_valid)[1]
  apply (rule returns_bind [where P = "links_closed D"])
   apply (rule assign_rets; simp add: assms links_in_def)
  apply (rule returns_bind [where P = "links_closed D"])
   apply (rule assign_rets; simp add: assms links_in_def)
  apply (rule returns_bind [where P = "links_closed D"])
   apply (rule assign_rets; simp add: assms links_in_def)
  apply (rule assign_rets; simp add: assms links_in_def)
  done


lemma rightLeftSwitch_returns:
  assumes "links_closed D h" "valid_in D n" "valid_in D p" "valid_in D g"
  shows "returns (links_closed D) (rightLeftSwitch n p g h)"
  unfolding rightLeftSwitch_def
  apply (rule returns_bind [OF deref_returns [OF assms(1,2)]])
  apply (rule returns_bind [where P = "links_closed D"])
   apply (rule assign_rets; simp add: assms links_in_def)
  apply (rule returns_bind [where P = "links_closed D"])
   apply (auto intro!: assign_rets simp: assms links_in_def nvalid_valid)[1]
  apply (rule returns_bind [where P = "links_closed D"])
   apply (rule assign_rets; simp add: assms links_in_def)
  apply (rule returns_bind [where P = "links_closed D"])
   apply (rule assign_rets; simp add: assms links_in_def)
  apply (rule returns_bind [where P = "links_closed D"])
   apply (rule assign_rets; simp add: assms links_in_def)
  apply (rule assign_rets; simp add: assms links_in_def)
  done

lemma assign_parent_same:
  "links_closed D h \<Longrightarrow> valid_in D p \<Longrightarrow> valid_in D g \<Longrightarrow> deref h g = Inr gn \<and> links_in D gn \<Longrightarrow>
   returns (\<lambda>h0. links_closed D h0 \<and>
       (\<forall>p0 g0. deref h0 p = Inr p0 \<longrightarrow> deref h0 g = Inr g0 \<longrightarrow> parent g0 = parent p0))
     (assign h p (\<lambda>x. x\<lparr>parent := parent gn\<rparr>))"
  by (cases p; cases g)
    (auto simp: links_closed_def valid_in_def assign_def deref_def links_in_def split: option.splits if_splits)

lemma reparent_returns:
  assumes "links_closed D h0" "valid_in D p" "valid_in D g" "deref h0 p = Inr p0"
      and "\<forall>p0 g0. deref h0 p = Inr p0 \<longrightarrow> deref h0 g = Inr g0 \<longrightarrow> parent g0 = parent p0"
  shows "returns (\<lambda>s'. links_closed D (nodes s'))
     (if parent p0 = None then Inr (s\<lparr>nodes := h0, tree := (tree s)\<lparr>root := p\<rparr>\<rparr>)
      else
        bindE (isRightChild (compFunc (tree s)) h0 g) (\<lambda>side.
        bindE (deref h0 g) (\<lambda>g0.
        bindE (if side = RIGHT_CHILD then assign h0 (parent g0) (\<lambda>x. x\<lparr>right := p\<rparr>)
               else assign h0 (parent g0) (\<lambda>x. x\<lparr>left := p\<rparr>)) (\<lambda>h'.
          Inr (s\<lparr>nodes := h'\<rparr>)))))"
proof (cases "parent p0 = None")
  case True
  then show ?thesis using assms(1) by simp
next
  case False
  have step: "returns (links_closed D)
      (if side = RIGHT_CHILD then assign h0 (parent g0) (\<lambda>x. x\<lparr>right := p\<rparr>)
       else assign h0 (parent g0) (\<lambda>x. x\<lparr>left := p\<rparr>))"
    if a: "deref h0 g = Inr g0 \<and> links_in D g0" for side :: int and g0
  proof -
    have "parent g0 = parent p0" using assms(4,5) a by blast
    then have "valid_in D (parent g0)" using a False by (simp add: links_in_def nvalid_valid)
    then show ?thesis
      using assms(1,2) by (simp add: assign_rets)
  qed
  show ?thesis
    apply (simp only: False if_False)
    apply (rule returns_bind [OF isRightChild_returns [OF assms(1,3)]])
    apply (rule returns_bind [OF deref_returns [OF assms(1,3)]])
    apply (rule returns_bind [where P = "links_closed D"])
     apply (erule step)
    apply simp
    done
qed

lemma reparent_step:
  assumes "links_closed D h0 \<and>
      (\<forall>p0 g0. deref h0 p = Inr p0 \<longrightarrow> deref h0 g = Inr g0 \<longrightarrow> parent g0 = parent p0)"
      and "deref h0 p = Inr p0 \<and> links_in D p0" and "valid_in D p" and "valid_in D g"
  shows "returns (\<lambda>s'. links_closed D (nodes s'))
     (if parent p0 = None then Inr (s\<lparr>nodes := h0, tree := (tree s)\<lparr>root := p\<rparr>\<rparr>)
      else
        bindE (isRightChild (compFunc (tree s)) h0 g) (\<lambda>side.
        bindE (deref h0 g) (\<lambda>g0.
        bindE (if side = RIGHT_CHILD then assign h0 (parent g0) (\<lambda>x. x\<lparr>right := p\<rparr>)
               else assign h0 (parent g0) (\<lambda>x. x\<lparr>left := p\<rparr>)) (\<lambda>h'.
          Inr (s\<lparr>nodes := h'\<rparr>)))))"
proof -
  have 1: "links_closed D h0" and 2: "deref h0 p = Inr p0"
    and 3: "\<forall>p0 g0. deref h0 p = Inr p0 \<longrightarrow> deref h0 g = Inr g0 \<longrightarrow> parent g0 = parent p0"
    using assms(1,2) by blast+
  show ?thesis
    by (rule reparent_returns [OF 1 assms(3,4) 2 3])
qed

lemma leftLeftSwitch_returns:
  assumes c: "links_closed D (nodes s)" and p: "valid_in D p" and g: "valid_in D g"
  shows "returns (\<lambda>s'. links_closed D (nodes s')) (leftLeftSwitch p g s)"
proof -
  have tail: "returns (\<lambda>s'. links_closed D (nodes s'))
     (bindE (deref (nodes s1) p) (\<lambda>pn.
      bindE (assign (nodes s1) g (\<lambda>x. x\<lparr>left := right pn\<rparr>)) (\<lambda>h1.
      bindE (if right pn \<noteq> None then assign h1 (right pn) (\<lambda>x. x\<lparr>parent := g\<rparr>)
             else Inr h1) (\<lambda>h2.
      bindE (assign h2 p (\<lambda>x. x\<lparr>right := g\<rparr>)) (\<lambda>h3.
      bindE (assign h3 g (\<lambda>x. x\<lparr>parent := p\<rparr>)) (\<lambda>h4.
        Inr (s1\<lparr>nodes := h4\<rparr>)))))))"
    if c1: "links_closed D (nodes s1)" for s1 :: "'a state"
    apply (rule returns_bind [OF deref_returns [OF c1 p]])
    apply (rule returns_bind [where P = "links_closed D"])
     apply (rule assign_rets; simp add: c1 p g links_in_def)
    apply (rule returns_bind [where P = "links_closed D"])
     apply (auto intro!: assign_rets simp: p g links_in_def nvalid_valid)[1]
    apply (rule returns_bind [where P = "links_closed D"])
     apply (rule assign_rets; simp add: p g)
    apply (rule returns_bind [where P = "links_closed D"])
     apply (rule assign_rets; simp add: p g)
    apply simp
    done
  show ?thesis
    unfolding leftLeftSwitch_def
    apply (rule returns_bind [OF deref_returns [OF c g]])
    apply (rule returns_bind [OF assign_parent_same [OF c p g]])
     apply assumption
    apply (rule returns_bind [OF deref_returns [of D _ p]])
      apply (erule conjunct1)
     apply (rule p)
    apply (rule returns_bind [where P = "\<lambda>s'. links_closed D (nodes s')"])
     apply (rule reparent_step [OF _ _ p g]; assumption)
    apply (erule tail)
    done
qed

lemma rightRightSwitch_returns:
  assumes c: "links_closed D (nodes s)" and p: "valid_in D p" and g: "valid_in D g"
  shows "returns (\<lambda>s'. links_closed D (nodes s')) (rightRightSwitch p g s)"
proof -
  have tail: "returns (\<lambda>s'. links_closed D (nodes s'))
     (bindE (deref (nodes s1) p) (\<lambda>pn.
      bindE (assign (nodes s1) g (\<lambda>x. x\<lparr>right := left pn\<rparr>)) (\<lambda>h1.
      bindE (if left pn \<noteq> None then assign h1 (left pn) (\<lambda>x. x\<lparr>parent := g\<rparr>)
             else Inr h1) (\<lambda>h2.
      bindE (assign h2 p (\<lambda>x. x\<lparr>left := g\<rparr>)) (\<lambda>h3.
      bindE (assign h3 g (\<lambda>x. x\<lparr>parent := p\<rparr>)) (\<lambda>h4.
        Inr (s1\<lparr>nodes := h4\<rparr>)))))))"
    if c1: "links_closed D (nodes s1)" for s1 :: "'a state"
    apply (rule returns_bind [OF deref_returns [OF c1 p]])
    apply (rule returns_bind [where P = "links_closed D"])
     apply (rule assign_rets; simp add: c1 p g links_in_def)
    apply (rule returns_bind [where P = "links_closed D"])
     apply (auto intro!: assign_rets simp: p g links_in_def nvalid_valid)[1]
    apply (rule returns_bind [where P = "links_closed D"])
     apply (rule assign_rets; simp add: p g)
    apply (rule returns_bind [where P = "links_closed D"])
     apply (rule assign_rets; simp add: p g)
    apply simp
    done
  show ?thesis
    unfolding rightRightSwitch_def
    apply (rule returns_bind [OF deref_returns [OF c g]])
    apply (rule returns_bind [OF assign_parent_same [OF c p g]])
     apply assumption
    apply (rule returns_bind [OF deref_returns [of D _ p]])
      apply (erule conjunct1)
     apply (rule p)
    apply (rule returns_bind [where P = "\<lambda>s'. links_closed D (nodes s')"])
     apply (rule reparent_step [OF _ _ p g]; assumption)
    apply (erule tail)
    done
qed


lemma modifyRedBlack_returns:
  assumes c: "links_closed D (nodes s)" and n: "valid_in D n" and p: "valid_in D p" and g: "valid_in D g"
  shows "returns (\<lambda>s'. links_closed D (nodes s')) (modifyRedBlack n p g s)"
proof -
  let ?Q = "\<lambda>(s1 :: 'a state, p1). links_closed D (nodes s1) \<and> valid_in D p1"
  have bentL: "returns ?Q
     (if nt = RIGHT_CHILD then
        bindE (leftRightSwitch n p g (nodes s)) (\<lambda>h. Inr (s\<lparr>nodes := h\<rparr>, n))
      else Inr (s, p))" for nt :: int
    using c n p g by (auto intro!: returns_bind [OF leftRightSwitch_returns])
  have bentR: "returns ?Q
     (if nt = LEFT_CHILD then
        bindE (rightLeftSwitch n p g (nodes s)) (\<lambda>h. Inr (s\<lparr>nodes := h\<rparr>, n))
      else Inr (s, p))" for nt :: int
    using c n p g by (auto intro!: returns_bind [OF rightLeftSwitch_returns])
  have straightL: "returns ?Q (bindE (leftLeftSwitch p1 g s1) (\<lambda>s2. Inr (s2, p1)))"
    if "links_closed D (nodes s1)" "valid_in D p1" for s1 :: "'a state" and p1
    using that g by (auto intro!: returns_bind [OF leftLeftSwitch_returns])
  have straightR: "returns ?Q (bindE (rightRightSwitch p1 g s1) (\<lambda>s2. Inr (s2, p1)))"
    if "links_closed D (nodes s1)" "valid_in D p1" for s1 :: "'a state" and p1
    using that g by (auto intro!: returns_bind [OF rightRightSwitch_returns])
  have rot: "returns ?Q
     (if pt = LEFT_CHILD then
        bindE (if nt = RIGHT_CHILD then
                 bindE (leftRightSwitch n p g (nodes s)) (\<lambda>h. Inr (s\<lparr>nodes := h\<rparr>, n))
               else Inr (s, p)) (\<lambda>(s1, par1).
        bindE (leftLeftSwitch par1 g s1) (\<lambda>s2. Inr (s2, par1)))
      else if pt = RIGHT_CHILD then
        bindE (if nt = LEFT_CHILD then
                 bindE (rightLeftSwitch n p g (nodes s)) (\<lambda>h. Inr (s\<lparr>nodes := h\<rparr>, n))
               else Inr (s, p)) (\<lambda>(s1, par1).
        bindE (rightRightSwitch par1 g s1) (\<lambda>s2. Inr (s2, par1)))
      else Inr (s, p))" for nt pt :: int
  proof (cases "pt = LEFT_CHILD")
    case True
    show ?thesis
      apply (subst if_P [OF True])
      apply (rule returns_bind [OF bentL])
      apply (clarsimp simp del: returns_Inr)
      apply (rule straightL; assumption)
      done
  next
    case False
    show ?thesis
    proof (cases "pt = RIGHT_CHILD")
      case True
      show ?thesis
        apply (subst if_not_P [OF False], subst if_P [OF True])
        apply (rule returns_bind [OF bentR])
        apply (clarsimp simp del: returns_Inr)
        apply (rule straightR; assumption)
        done
    next
      case f: False
      show ?thesis
        using c p by (simp add: False f)
    qed
  qed
  have paint: "returns (\<lambda>s'. links_closed D (nodes s'))
      (bindE (assign (nodes s3) p3 (\<lambda>x. x\<lparr>color := BLACK\<rparr>)) (\<lambda>h1.
       bindE (assign h1 g (\<lambda>x. x\<lparr>color := RED\<rparr>)) (\<lambda>h2. Inr (s3\<lparr>nodes := h2\<rparr>))))"
    if "links_closed D (nodes s3)" "valid_in D p3" for s3 :: "'a state" and p3
    apply (rule returns_bind [where P = "links_closed D"])
     apply (rule assign_rets; simp add: that)
    apply (rule returns_bind [where P = "links_closed D"])
     apply (rule assign_rets; simp add: g)
    apply simp
    done
  show ?thesis
    unfolding modifyRedBlack_def
    apply (rule returns_bind [OF isRightChild_returns [OF c n]])
    apply (rule returns_bind [OF isRightChild_returns [OF c p]])
    apply (rule returns_bind [OF rot])
    apply (clarsimp simp del: returns_Inr)
    apply (rule paint; assumption)
    done
qed

lemma rootp_in_addrs: "rootp t = Some b \<Longrightarrow> b \<in> set (addrs t)"
  by (cases t) auto

lemma shape_links:
  "shape h par t \<Longrightarrow> null_or_valid D par \<Longrightarrow> set (addrs t) \<subseteq> D \<Longrightarrow> a \<in> set (addrs t) \<Longrightarrow>
   (case h a of None \<Rightarrow> False | Some n \<Rightarrow> links_in D n)"
proof (induction t arbitrary: par)
  case Leaf
  then show ?case by simp
next
  case (Br b c l d r)
  have vl: "null_or_valid D (rootp l)" and vr: "null_or_valid D (rootp r)"
    using Br.prems(3) rootp_in_addrs [of l] rootp_in_addrs [of r]
    by (auto simp: null_or_valid_def split: option.splits)
  have vb: "null_or_valid D (Some b)" using Br.prems(3) by (simp add: null_or_valid_def)
  consider "a = b" | "a \<in> set (addrs l)" | "a \<in> set (addrs r)"
    using Br.prems(4) by auto
  then show ?case
  proof cases
    case 1
    then show ?thesis
      using Br.prems(1,2) vl vr by (auto simp: links_in_def split: option.splits)
  next
    case 2
    then show ?thesis
      using Br.IH(1) [of "Some b"] Br.prems(1,3) vb by simp
  next
    case 3
    then show ?thesis
      using Br.IH(2) [of "Some b"] Br.prems(1,3) vb by simp
  qed
qed

lemma shape_closed: "shape h None t \<Longrightarrow> links_closed (set (addrs t)) h"
  unfolding links_closed_def using shape_links [of h None t "set (addrs t)"]
  by (simp add: null_or_valid_def)

lemma shape_root:
  "shape h par t \<Longrightarrow> rootp t = Some b \<Longrightarrow> \<exists>n. h b = Some n \<and> parent n = par"
  by (cases t) (auto split: option.splits)

lemma shape_children:
  "shape h par (Br a c l d r) \<Longrightarrow>
   \<exists>n. h a = Some n \<and> parent n = par \<and> left n = rootp l \<and> right n = rootp r \<and>
     (\<forall>b. left n = Some b \<or> right n = Some b \<longrightarrow> (\<exists>m. h b = Some m \<and> parent m = Some a))"
  using shape_root [of h "Some a" l] shape_root [of h "Some a" r]
  by (auto split: option.splits)

lemma findUncle_result:
  "findUncle q s = Inr u \<Longrightarrow>
   \<exists>n p g. deref (nodes s) q = Inr n \<and> deref (nodes s) (parent n) = Inr p \<and>
     deref (nodes s) (parent p) = Inr g \<and> (u = left g \<or> u = right g)"
  by (auto simp: findUncle_def bindE_eq_Inr split: if_splits)

lemma findUncle_returns:
  assumes c: "links_closed D (nodes s)" and n: "deref (nodes s) q = Inr n"
      and p: "deref (nodes s) (parent n) = Inr p"
      and q: "valid_in D q" "valid_in D (parent n)" "valid_in D (parent p)"
  shows "returns (null_or_valid D) (findUncle q s)"
  unfolding findUncle_def
  apply (simp add: n p)
  apply (rule returns_bind [OF isRightChild_returns [OF c q(2)]])
  apply (rule returns_bind [OF deref_returns [OF c q(3)]])
  apply (simp add: links_in_def)
  done

lemma assign_other:
  "assign h q f = Inr h' \<Longrightarrow> q \<noteq> Some b \<Longrightarrow> h' b = h b"
  by (auto simp: assign_def split: option.splits)


lemma focus_in_plug: "a \<in> set (addrs (plug (Br a c l d r) fs))"
  by (simp add: addrs_plug)

lemma returns_ex: "returns P m \<Longrightarrow> \<exists>x. m = Inr x"
  by (cases m) simp_all

lemma returns_obtain: "returns P m \<Longrightarrow> \<exists>x. m = Inr x \<and> P x"
  by (cases m) simp_all

lemma modifyStep_returns:
  assumes sh: "shape (nodes s) None (plug (Br a c l d r) fs)"
      and rt: "root (tree s) = rootp (plug (Br a c l d r) fs)"
      and rb: "fs \<noteq> [] \<longrightarrow> (\<exists>n. nodes s (faddr (last fs)) = Some n \<and> color n = BLACK)"
  shows "\<exists>res. modifyStep (Some a) s = Inr res"
proof -
  let ?T = "plug (Br a c l d r) fs"
  let ?D = "set (addrs ?T)"
  have cl: "links_closed ?D (nodes s)"
    using sh by (rule shape_closed)
  obtain n where n: "nodes s a = Some n" "parent n = cparent fs"
    using shape_plug [OF sh] by (auto split: option.splits)
  have dn: "deref (nodes s) (Some a) = Inr n"
    using n(1) by (simp add: deref_def)
  have aD: "valid_in ?D (Some a)"
    using focus_in_plug [of a c l d r fs] by (simp add: valid_in_def)
  show ?thesis
  proof (cases fs)
    case Nil
    then show ?thesis
      using rt n(1) by (simp add: modifyStep_def assign_def)
  next
    case (Cons f1 fs1)
    obtain c1 l1 d1 r1 where t1: "?T = plug (Br (faddr f1) c1 l1 d1 r1) fs1"
      using plug_frame [of "Br a c l d r" f1 fs1] Cons by auto
    obtain p where p: "nodes s (faddr f1) = Some p" "parent p = cparent fs1"
      using shape_plug [of "nodes s" "Br (faddr f1) c1 l1 d1 r1" fs1] sh t1
      by (auto split: option.splits)
    have dp: "deref (nodes s) (parent n) = Inr p"
      using n(2) p(1) Cons by (simp add: deref_def)
    have pD: "valid_in ?D (parent n)"
      using focus_in_plug [of "faddr f1" c1 l1 d1 r1 fs1] t1 n(2) Cons by (simp add: valid_in_def)
    obtain rn where rn: "nodes s (faddr (last fs)) = Some rn" "parent rn = None"
      using shape_root [OF sh, of "faddr (last fs)"] Cons by (auto simp: rootp_plug)
    have nroot: "Some a \<noteq> root (tree s)"
      using rt rn n Cons by (auto simp: rootp_plug)
    show ?thesis
    proof (cases "color p = BLACK")
      case True
      then show ?thesis
        using nroot dn dp by (simp add: modifyStep_def)
    next
      case False
      then obtain f2 fs' where fs1: "fs1 = f2 # fs'"
        using rb p(1) Cons by (cases fs1) auto
      obtain c2 l2 d2 r2 where t2: "?T = plug (Br (faddr f2) c2 l2 d2 r2) fs'"
        using plug_frame [of "Br (faddr f1) c1 l1 d1 r1" f2 fs'] t1 fs1 by auto
      have gD: "valid_in ?D (parent p)"
        using focus_in_plug [of "faddr f2" c2 l2 d2 r2 fs'] t2 p(2) fs1 by (simp add: valid_in_def)
      obtain u where u: "findUncle (Some a) s = Inr u" "null_or_valid ?D u"
        using returns_obtain [OF findUncle_returns [OF cl dn dp aD pD gD]] by blast
      obtain s' where mrb: "modifyRedBlack (Some a) (parent n) (parent p) s = Inr s'"
        using returns_ex [OF modifyRedBlack_returns [OF cl aD pD gD]] by blast
      show ?thesis
      proof (cases "u = None")
        case True
        then show ?thesis
          using nroot dn dp False u(1) mrb by (simp add: modifyStep_def)
      next
        case un: False
        then have uD: "valid_in ?D u" using u(2) by (simp add: nvalid_valid)
        obtain un where du: "deref (nodes s) u = Inr un"
          using returns_ex [OF deref_returns [OF cl uD]] by blast
        show ?thesis
        proof (cases "color un = RED")
          case True
          obtain h1 where h1: "assign (nodes s) (parent n) (\<lambda>x. x\<lparr>color := BLACK\<rparr>) = Inr h1"
              "links_closed ?D h1"
            using returns_obtain [OF assign_color_returns [OF cl pD]] by blast
          obtain h2 where h2: "assign h1 u (\<lambda>x. x\<lparr>color := BLACK\<rparr>) = Inr h2" "links_closed ?D h2"
            using returns_obtain [OF assign_color_returns [OF h1(2) uD]] by blast
          obtain h3 where h3: "assign h2 (parent p) (\<lambda>x. x\<lparr>color := RED\<rparr>) = Inr h3"
            using returns_ex [OF assign_color_returns [OF h2(2) gD]] by blast
          show ?thesis
            using nroot dn dp False u(1) un du True h1(1) h2(1) h3
            by (simp add: modifyStep_def)
        next
          case f: False
          then show ?thesis
            using nroot dn dp False u(1) un du mrb by (simp add: modifyStep_def)
        qed
      qed
    qed
  qed
qed


lemma modifyStep_root:
  assumes sh: "shape (nodes s) None (plug (Br a c l d r) (f1 # f2 # fs'))"
      and st: "modifyStep (Some a) s = Inr (Inr (g, s1))"
      and rb: "\<exists>n. nodes s (faddr (last (f1 # f2 # fs'))) = Some n \<and> color n = BLACK"
      and ne: "fs' \<noteq> []"
  shows "tree s1 = tree s \<and> (\<exists>n. nodes s1 (faddr (last fs')) = Some n \<and> color n = BLACK)"
proof -
  let ?fs = "f1 # f2 # fs'"
  let ?R = "faddr (last fs')"
  from st obtain n p uncle h1 h2 h3 where
    n: "deref (nodes s) (Some a) = Inr n" and p: "deref (nodes s) (parent n) = Inr p" and
    fu: "findUncle (Some a) s = Inr uncle" and
    h1: "assign (nodes s) (parent n) (\<lambda>x. x\<lparr>color := BLACK\<rparr>) = Inr h1" and
    h2: "assign h1 uncle (\<lambda>x. x\<lparr>color := BLACK\<rparr>) = Inr h2" and
    h3: "assign h2 (parent p) (\<lambda>x. x\<lparr>color := RED\<rparr>) = Inr h3" and
    s1: "s1 = s\<lparr>nodes := h3\<rparr>"
    by (auto simp: modifyStep_def bindE_eq_Inr split: if_splits)
  obtain rn where rn: "nodes s ?R = Some rn" "color rn = BLACK" "parent rn = None"
    using rb shape_root [OF sh, of ?R] ne by (auto simp: rootp_plug)
  have pn: "parent n = Some (faddr f1)"
    using shape_plug [OF sh] n by (auto simp: deref_def split: option.splits)
  obtain c1 l1 d1 r1 where
    t1: "plug (Br a c l d r) ?fs = plug (Br (faddr f1) c1 l1 d1 r1) (f2 # fs')"
    using plug_frame [of "Br a c l d r" f1 "f2 # fs'"] by auto
  have pp: "parent p = Some (faddr f2)"
    using shape_plug [of "nodes s" "Br (faddr f1) c1 l1 d1 r1" "f2 # fs'"] sh t1 p pn
    by (auto simp: deref_def split: option.splits)
  obtain c2 l2 d2 r2 where
    t2: "plug (Br a c l d r) ?fs = plug (Br (faddr f2) c2 l2 d2 r2) fs'"
    using plug_frame [of "Br (faddr f1) c1 l1 d1 r1" f2 fs'] t1 by auto
  have sg: "shape (nodes s) (cparent fs') (Br (faddr f2) c2 l2 d2 r2)"
    using shape_plug [of "nodes s" "Br (faddr f2) c2 l2 d2 r2" fs'] sh t2 by simp
  obtain gn where gn: "nodes s (faddr f2) = Some gn" "parent gn = cparent fs'"
      "\<forall>b. left gn = Some b \<or> right gn = Some b \<longrightarrow>
         (\<exists>m. nodes s b = Some m \<and> parent m = Some (faddr f2))"
    using shape_children [OF sg] by blast
  have r1: "parent n \<noteq> Some ?R"
    using pn p pp rn by (auto simp: deref_def)
  have r3: "parent p \<noteq> Some ?R"
    using pp gn rn ne by (cases fs') auto
  have "uncle = left gn \<or> uncle = right gn"
    using findUncle_result [OF fu] n p pn pp gn(1) by (auto simp: deref_def)
  moreover have "uncle \<noteq> None"
    using h2 by (cases uncle) (simp_all add: assign_def)
  ultimately have r2: "uncle \<noteq> Some ?R"
    using gn(3) [rule_format, of ?R] rn by fastforce
  have "h3 ?R = nodes s ?R"
    using assign_other [OF h1 r1] assign_other [OF h2 r2] assign_other [OF h3 r3] by simp
  then show ?thesis
    using rn s1 by simp
qed

lemma repr_root_color:
  "repr h None (plug t fs) \<Longrightarrow> fs \<noteq> [] \<Longrightarrow>
   \<exists>n. h (faddr (last fs)) = Some n \<and> color n = fcol (last fs)"
proof -
  assume r: "repr h None (plug t fs)" and ne: "fs \<noteq> []"
  have "rootp (plug t fs) = Some (faddr (last fs))" "col (plug t fs) = fcol (last fs)"
    using ne by (simp_all add: rootp_plug col_plug)
  then show ?thesis
    using r by (cases "plug t fs") auto
qed

lemma modifyNode_returns:
  "shape (nodes s) None (plug (Br a c l d r) fs) \<Longrightarrow>
   root (tree s) = rootp (plug (Br a c l d r) fs) \<Longrightarrow>
   fs \<noteq> [] \<longrightarrow> (\<exists>n. nodes s (faddr (last fs)) = Some n \<and> color n = BLACK) \<Longrightarrow>
   length fs < 2 * fuel \<Longrightarrow> \<exists>s'. modifyNode fuel (Some a) s = Inr s'"
proof (induction fuel arbitrary: s a c l d r fs)
  case 0
  then show ?case by simp
next
  case (Suc k)
  obtain res where res: "modifyStep (Some a) s = Inr res"
    using modifyStep_returns [OF Suc.prems(1,2,3)] by blast
  show ?case
  proof (cases res)
    case (Inl s')
    then show ?thesis
      using res by (simp only: modifyNode_step bindE_Inr sum.case) simp
  next
    case (Inr gs)
    obtain g s1 where gs: "gs = (g, s1)" by (cases gs)
    have st: "modifyStep (Some a) s = Inr (Inr (g, s1))"
      using res Inr gs by simp
    obtain f1 f2 fs' c2 l2 d2 r2 where up: "fs = f1 # f2 # fs'" "g = Some (faddr f2)"
        "plug (Br a c l d r) fs = plug (Br (faddr f2) c2 l2 d2 r2) fs'"
        "shape (nodes s1) None (plug (Br (faddr f2) c2 l2 d2 r2) fs')"
      using modifyStep_up [OF Suc.prems(1) st] by blast
    have tr: "tree s1 = tree s"
      using st by (auto simp: modifyStep_def bindE_eq_Inr split: if_splits)
    have rb: "fs' \<noteq> [] \<longrightarrow> (\<exists>n. nodes s1 (faddr (last fs')) = Some n \<and> color n = BLACK)"
    proof
      assume ne: "fs' \<noteq> []"
      have "\<exists>n. nodes s (faddr (last (f1 # f2 # fs'))) = Some n \<and> color n = BLACK"
        using Suc.prems(3) up(1) by simp
      then show "\<exists>n. nodes s1 (faddr (last fs')) = Some n \<and> color n = BLACK"
        using modifyStep_root [OF _ st _ ne, of c l d r f1 f2] Suc.prems(1) up(1) by simp
    qed
    have rt: "root (tree s1) = rootp (plug (Br (faddr f2) c2 l2 d2 r2) fs')"
      using Suc.prems(2) tr up(3) by simp
    have "\<exists>s'. modifyNode k (Some (faddr f2)) s1 = Inr s'"
      using up(1) Suc.prems(4) by (intro Suc.IH [OF up(4) rt rb]) simp
    then show ?thesis
      using st up(2) by (simp add: modifyNode_step del: modifyNode.simps)
  qed
qed
section \<open>The example states\<close>

lemma total_order_natCompare: "total_order natCompare"
  by (auto simp: total_order_def natCompare_def split: option.splits)

lemmas run_defs = addToRBTree_def makeNewNode_def newRBTree_def assign_def deref_def
  natCompare_def SUCCESS_def FAILURE_def START_SIZE_def free_mem_def

lemma add_10: "addToRBTree (Suc 0) (newRBTree natCompare) (Some 10) (Some 1) = Inr (SUCCESS, ex10)"
  by (simp add: run_defs ex10_def)

lemma add_20: "addToRBTree 2 ex10 (Some 20) (Some 2) = Inr (SUCCESS, ex10_20)"
  by (simp add: run_defs ex10_def ex10_20_def eval_nat_numeral)

lemma add_30: "addToRBTree 3 ex10_20 (Some 30) (Some 3) = Inr (SUCCESS, ex10_20_30)"
  by (simp add: run_defs ex10_20_def ex10_20_30_def eval_nat_numeral
      findUncle_def isRightChild_def modifyRedBlack_def rightRightSwitch_def
      RIGHT_CHILD_def LEFT_CHILD_def fun_upd_twist)

lemma add_null: "addToRBTree (Suc 0) (newRBTree natCompare) None (Some 1) = Inr (SUCCESS, exNull)"
  by (simp add: run_defs exNull_def)

lemma add_null_5: "addToRBTree 2 exNull (Some 5) (Some 2) = Inr (SUCCESS, exNull_5)"
  by (simp add: run_defs exNull_def exNull_5_def eval_nat_numeral)

lemma built_ex10: "built natCompare 1 ex10"
  using built_add [OF built_new _ add_10] by (simp add: fresh_def newRBTree_def SUCCESS_def FAILURE_def)

lemma built_ex10_20: "built natCompare 2 ex10_20"
  using built_add [OF built_ex10 _ add_20]
  by (simp add: fresh_def ex10_def SUCCESS_def FAILURE_def eval_nat_numeral)

lemma built_ex10_20_30: "built natCompare 3 ex10_20_30"
  using built_add [OF built_ex10_20 _ add_30]
  by (simp add: fresh_def ex10_20_def SUCCESS_def FAILURE_def eval_nat_numeral)

lemma rbt_inv_ex10_20_30: "rbt_inv ex10_20_30 tr10_20_30"
  by (auto simp: rbt_inv_def holds_def ex10_20_30_def tr10_20_30_def bst_def ascending_def
      natCompare_def)

lemma holds_exNull: "holds exNull (Br 1 BLACK Leaf None Leaf)"
  by (auto simp: holds_def exNull_def)

lemma holds_ex10_20: "holds ex10_20 (Br 1 BLACK Leaf (Some 10) (Br 2 RED Leaf (Some 20) Leaf))"
  by (auto simp: holds_def ex10_20_def)

lemma elements_ex10_20: "elements ex10_20 = {Some 10, Some 20}"
  using elements_holds [OF holds_ex10_20] by auto


lemma inserted_ex10: "inserted natCompare [Some 10] ex10"
  using inserted_add [OF inserted_new _ add_10]
  by (simp add: fresh_def newRBTree_def SUCCESS_def FAILURE_def)

lemma inserted_ex10_20: "inserted natCompare [Some 10, Some 20] ex10_20"
  using inserted_add [OF inserted_ex10 _ add_20]
  by (simp add: fresh_def ex10_def SUCCESS_def FAILURE_def eval_nat_numeral)

lemma inserted_exNull: "inserted natCompare [None] exNull"
  using inserted_add [OF inserted_new _ add_null]
  by (simp add: fresh_def newRBTree_def SUCCESS_def FAILURE_def)

lemma inserted_exNull_5: "inserted natCompare [None, Some 5] exNull_5"
  using inserted_add [OF inserted_exNull _ add_null_5]
  by (simp add: fresh_def exNull_def SUCCESS_def FAILURE_def eval_nat_numeral)

text \<open>
  Inserting 40 after 10, 20 and 30: the descent of \<open>addNewNode\<close> leaves the store of
  \<open>pending40\<close>, on which \<open>modifyNode\<close> is called; it needs a depth of two, for its call on
  the grandparent.
\<close>

lemma add_40_descent:
  "addNewNode 3 (Some 2) (Some 4) natCompare
     ((nodes ex10_20_30)(4 \<mapsto> \<lparr>parent = None, left = None, right = None, color = RED, data = Some 40\<rparr>))
   = Inr (SUCCESS, nodes pending40)"
  by (simp add: ex10_20_30_def pending40_def assign_def deref_def natCompare_def eval_nat_numeral
      fun_upd_twist)

lemma modifyNode_pending40: "modifyNode 2 (Some 4) pending40 = Inr recolored40"
  by (simp add: pending40_def recolored40_def findUncle_def isRightChild_def assign_def deref_def
      natCompare_def RIGHT_CHILD_def LEFT_CHILD_def eval_nat_numeral fun_upd_twist)

lemma modifyNode_pending40_short: "modifyNode 1 (Some 4) pending40 = Inl OutOfFuel"
  by (simp add: pending40_def findUncle_def isRightChild_def assign_def deref_def
      natCompare_def RIGHT_CHILD_def LEFT_CHILD_def)

lemma add_40:
  "addToRBTree 3 ex10_20_30 (Some 40) (Some 4)
   = Inr (SUCCESS, recolored40\<lparr>tree := (tree recolored40)\<lparr>size := 4\<rparr>\<rparr>)"
  by (simp add: run_defs ex10_20_30_def recolored40_def findUncle_def isRightChild_def
      natCompare_def RIGHT_CHILD_def LEFT_CHILD_def eval_nat_numeral fun_upd_twist)

text \<open>
  Below a RED root, a RED node has no grandparent: \<open>findUncle\<close> reads through the \<open>NULL\<close>
  parent pointer of the root.
\<close>

lemma modifyNode_redRoot: "modifyNode (Suc k) (Some 2) redRoot = Inl NullDeref"
  by (simp add: redRoot_def findUncle_def isRightChild_def deref_def)
section \<open>The red-black invariants after every insertion\<close>

text \<open>
  C1.  In every state that calls of \<open>addToRBTree\<close> build from \<open>newRBTree\<close> with a consistent
  comparator, a further call with a depth bound above the count returns, and the state
  it returns holds a tree whose root is BLACK (\<open>col\<close>), in which no RED node has a RED
  child (\<open>invc\<close>), and in which all paths from a node to an absent child pass through the
  same number of BLACK nodes (\<open>invh\<close>).
\<close>

theorem insertion_keeps_red_black:
  assumes "total_order cf" and "built cf n s" and "fresh (nodes s) alloc"
      and "size (tree s) < fuel"
  shows "\<exists>r s' t. addToRBTree fuel s d alloc = Inr (r, s') \<and> holds s' t \<and>
           col t = BLACK \<and> invc t \<and> invh t"
proof -
  obtain t where "rbt_inv s t" "compFunc (tree s) = cf"
    using built_inv [OF assms(1,2)] by blast
  then show ?thesis
    using addToRBTree_inv [of s t alloc fuel d] assms(1,3,4) by (auto simp: rbt_inv_def)
qed

theorem insertion_keeps_red_black_witness:
  "total_order natCompare \<and> built natCompare 2 ex10_20 \<and> fresh (nodes ex10_20) (Some 3) \<and>
   size (tree ex10_20) < 3 \<and>
   (\<exists>r s' t. addToRBTree 3 ex10_20 (Some 30) (Some 3) = Inr (r, s') \<and> holds s' t \<and>
      col t = BLACK \<and> invc t \<and> invh t)"
proof -
  have f: "fresh (nodes ex10_20) (Some 3)" and z: "size (tree ex10_20) < 3"
    by (simp_all add: fresh_def ex10_20_def)
  show ?thesis
    using insertion_keeps_red_black [OF total_order_natCompare built_ex10_20 f z, of "Some 30"]
      total_order_natCompare built_ex10_20 f z
    by simp
qed

section \<open>The order of the traversal\<close>

text \<open>
  C2.  In every state built by insertions with a consistent comparator, the elements
  that \<open>forEachRBTree\<close> calls the visitor on, in the order of the calls, are strictly
  ascending and are stored elements; when the visitor never stops they are all the
  stored elements, each once, and on a tree with a root the traversal returns success.
  (On the tree without a root nothing is stored and nothing is visited; what the call
  returns there is the subject of C3.)
\<close>

theorem traversal_in_ascending_order:
  assumes "total_order cf" and "built cf n s" and "size (tree s) \<le> fuel"
  shows "\<exists>r args' calls.
           forEachRBTree fuel (Some (tree s)) (nodes s) (Some func) args = (r, args', calls) \<and>
           ascending cf calls \<and> set calls \<subseteq> elements s \<and>
           ((\<forall>d c. fst (func d c) \<noteq> 0) \<longrightarrow>
              set calls = elements s \<and> length calls = n \<and>
              (root (tree s) \<noteq> None \<longrightarrow> r = Inr SUCCESS))"
proof -
  obtain t where t: "rbt_inv s t" "compFunc (tree s) = cf"
    using built_inv [OF assms(1,2)] by blast
  have hl: "holds s t" and asc: "ascending cf (inorder t)"
    and sz: "length (inorder t) = n"
    using t built_size [OF assms(2)] by (simp_all add: rbt_inv_def bst_def)
  have el: "elements s = set (inorder t)" using hl by (rule elements_holds)
  show ?thesis
  proof (cases t)
    case Leaf
    then have "root (tree s) = None" using hl by (simp add: holds_def)
    then have "snd (forEachRBTree fuel (Some (tree s)) (nodes s) (Some func) args) = (args, [])"
      by (simp add: forEachRBTree_def forEachNode_null)
    then show ?thesis
      using Leaf el sz
      by (cases "forEachRBTree fuel (Some (tree s)) (nodes s) (Some func) args")
        (auto simp: ascending_def holds_root [OF hl])
  next
    case (Br a c l d r)
    then have ne: "t \<noteq> Leaf" by simp
    have h: "height t \<le> fuel"
      using assms(3) t(1) height_le_length [of t] by (simp add: rbt_inv_def)
    have rp: "root (tree s) = rootp t" and re: "repr (nodes s) None t"
      using hl by (simp_all add: holds_def)
    have run: "forEachRBTree fuel (Some (tree s)) (nodes s) (Some func) args =
        (Inr (fst (visit func (inorder t) (args, []))), snd (visit func (inorder t) (args, [])))"
      using forEachNode_visit [OF re ne h, of func "(args, [])"] rp
      by (simp add: forEachRBTree_def)
    obtain j where j: "snd (snd (visit func (inorder t) (args, []))) = take j (inorder t)"
      using visit_prefix [of func "inorder t" args "[]"] by auto
    have all: "snd (snd (visit func (inorder t) (args, []))) = inorder t \<and>
               fst (visit func (inorder t) (args, [])) = SUCCESS"
      if "\<forall>d c. fst (func d c) \<noteq> 0"
      using visit_all [OF that, of "inorder t" args "[]"] by auto
    show ?thesis
      using run j all asc el sz ascending_take [OF asc, of j] set_take_subset [of j "inorder t"]
      by (cases "visit func (inorder t) (args, [])") auto
  qed
qed

theorem traversal_in_ascending_order_witness:
  "total_order natCompare \<and> built natCompare 3 ex10_20_30 \<and> size (tree ex10_20_30) \<le> 3 \<and>
   (\<forall>d c. fst ((\<lambda>d c. (1, Suc c)) (d :: nat option) (c :: nat)) \<noteq> (0 :: int)) \<and>
   root (tree ex10_20_30) \<noteq> None \<and>
   (\<exists>args' calls.
      forEachRBTree 3 (Some (tree ex10_20_30)) (nodes ex10_20_30) (Some (\<lambda>d c. (1, Suc c))) 0
        = (Inr SUCCESS, args', calls) \<and>
      ascending natCompare calls \<and> set calls = elements ex10_20_30 \<and> length calls = 3)"
proof -
  have z: "size (tree ex10_20_30) \<le> 3" and r: "root (tree ex10_20_30) \<noteq> None"
    by (simp_all add: ex10_20_30_def)
  show ?thesis
    using traversal_in_ascending_order [OF total_order_natCompare built_ex10_20_30 z,
        of "\<lambda>d c. (1, Suc c)" 0]
      total_order_natCompare built_ex10_20_30 z r
    by auto
qed

section \<open>Traversal of the empty tree\<close>

text \<open>
  C3.  The claim: \<open>forEachRBTree\<close> on an empty tree returns success.  The code passes the
  \<open>NULL\<close> root to \<open>forEachNode\<close>, whose first step reads \<open>node->left\<close>: on the tree that
  \<open>newRBTree\<close> returns, the traversal does not return a value at all, it dereferences
  \<open>NULL\<close>, whatever the visitor and however deep the recursion may go.
\<close>

theorem forEachRBTree_empty_null_deref:
  "forEachRBTree (Suc k) (Some (tree (newRBTree cf))) (nodes (newRBTree cf)) (Some func) args
     = (Inl NullDeref, args, [])"
  by (simp add: forEachRBTree_def newRBTree_def)

section \<open>Membership\<close>

text \<open>
  C4, as stated, fails on the \<open>NULL\<close> element.  After the successful insertions of \<open>NULL\<close>
  and of 5 (with a comparator that puts \<open>NULL\<close> below every number), \<open>containsRBTree\<close>
  answers \<open>FAILURE\<close> for \<open>NULL\<close>, which compares equal to the stored \<open>NULL\<close>, and also for 5:
  the search stops at the root, which holds \<open>NULL\<close>, before any comparison.
\<close>

theorem null_element_breaks_membership:
  "addToRBTree (Suc 0) (newRBTree natCompare) None (Some 1) = Inr (SUCCESS, exNull) \<and>
   addToRBTree 2 exNull (Some 5) (Some 2) = Inr (SUCCESS, exNull_5) \<and>
   inserted natCompare [None, Some 5] exNull_5 \<and>
   natCompare None None = 0 \<and> natCompare (Some 5) (Some 5) = 0 \<and>
   containsRBTree 3 (Some (tree exNull_5)) (nodes exNull_5) None = Inr (FAILURE, []) \<and>
   containsRBTree 3 (Some (tree exNull_5)) (nodes exNull_5) (Some 5) = Inr (FAILURE, [])"
  using add_null add_null_5 inserted_exNull_5
  by (simp add: containsRBTree_def exNull_5_def natCompare_def deref_def eval_nat_numeral)

text \<open>
  C4, amended.  Let \<open>s\<close> be a state reached from \<open>newRBTree\<close> by calls of \<open>addToRBTree\<close> with a
  consistent comparator, and \<open>ds\<close> the elements whose insertion returned success.  Then
  \<open>containsRBTree\<close> with a depth bound above their number returns; it answers \<open>FAILURE\<close>
  for every element that compares unequal to all elements of \<open>ds\<close>; and when \<open>NULL\<close> is not
  among \<open>ds\<close>, it answers \<open>SUCCESS\<close> for every element other than \<open>NULL\<close> that compares equal
  to an element of \<open>ds\<close>.
\<close>

theorem membership_without_null:
  assumes "total_order cf" and "inserted cf ds s" and "length ds < fuel"
  shows "\<exists>r calls. containsRBTree fuel (Some (tree s)) (nodes s) x = Inr (r, calls) \<and>
           ((\<forall>e\<in>set ds. cf e x \<noteq> 0) \<longrightarrow> r = FAILURE) \<and>
           (x \<noteq> None \<and> None \<notin> set ds \<and> (\<exists>e\<in>set ds. cf e x = 0) \<longrightarrow> r = SUCCESS)"
proof -
  have bl: "built cf (length ds) s"
    using assms(2) by (rule inserted_built)
  obtain t where t: "rbt_inv s t" "compFunc (tree s) = cf"
    using built_inv [OF assms(1) bl] by blast
  have hl: "holds s t" and asc: "ascending cf (inorder t)"
    using t by (simp_all add: rbt_inv_def bst_def)
  have "elements s = set (inorder t)" using hl by (rule elements_holds)
  then have el: "set ds = set (inorder t)"
    using inserted_elements [OF assms(1,2)] by simp
  have "size (tree s) = length ds"
    using bl by (rule built_size)
  then have h: "height t < fuel"
    using assms(3) t(1) height_le_length [of t] by (simp add: rbt_inv_def)
  have rp: "root (tree s) = rootp t" and re: "repr (nodes s) None t"
    using hl by (simp_all add: holds_def)
  show ?thesis
  proof (cases "x = None \<or> t = Leaf")
    case True
    then have "containsRBTree fuel (Some (tree s)) (nodes s) x = Inr (FAILURE, [])"
      using rp by (auto simp: containsRBTree_def)
    then show ?thesis
      using True el by auto
  next
    case False
    then have "containsRBTree fuel (Some (tree s)) (nodes s) x =
        containsLoop fuel cf (nodes s) (rootp t) x []"
      using rp t(2) by (cases t) (auto simp: containsRBTree_def)
    moreover obtain calls where "containsLoop fuel cf (nodes s) (rootp t) x [] =
        Inr (if lookup cf x t then SUCCESS else FAILURE, calls)"
      using containsLoop_lookup [OF re h, of cf x "[]"] by blast
    moreover have "\<exists>e\<in>set ds. cf e x = 0" if "lookup cf x t"
      using lookup_elem [OF that] el by simp
    moreover have "lookup cf x t"
      if "None \<notin> set ds" "\<exists>e\<in>set ds. cf e x = 0"
      using that elem_lookup [OF assms(1) asc] el by auto
    ultimately show ?thesis
      by auto
  qed
qed

theorem membership_without_null_witness:
  "total_order natCompare \<and> inserted natCompare [Some 10, Some 20] ex10_20 \<and>
   length [Some 10, Some (20 :: nat)] < 3 \<and>
   natCompare (Some 20) (Some 20) = 0 \<and>
   natCompare (Some 10) (Some 15) \<noteq> 0 \<and> natCompare (Some 20) (Some 15) \<noteq> 0 \<and>
   (\<exists>calls. containsRBTree 3 (Some (tree ex10_20)) (nodes ex10_20) (Some 20)
      = Inr (SUCCESS, calls)) \<and>
   (\<exists>calls. containsRBTree 3 (Some (tree ex10_20)) (nodes ex10_20) (Some 15)
      = Inr (FAILURE, calls))"
proof -
  have z: "length [Some 10, Some (20 :: nat)] < 3"
    by simp
  have a: "natCompare (Some 20) (Some 20) = 0"
    "natCompare (Some 10) (Some 15) \<noteq> 0" "natCompare (Some 20) (Some 15) \<noteq> 0"
    by (simp_all add: natCompare_def)
  show ?thesis
    using membership_without_null [OF total_order_natCompare inserted_ex10_20 z, of "Some 20"]
      membership_without_null [OF total_order_natCompare inserted_ex10_20 z, of "Some 15"]
      total_order_natCompare inserted_ex10_20 a
    by auto
qed

section \<open>Duplicates\<close>

text \<open>
  C5.  In every state built by insertions with a consistent comparator, when a stored
  element compares equal to the argument, \<open>addToRBTree\<close> (given a new node by \<open>malloc\<close> and
  a depth bound above the count) returns \<open>FAILURE\<close> and the state it was called in: the
  store with its links and colours, the root and the count are as before, the
  address of the new node is free again, and the log of the destructor is as before.
\<close>

theorem duplicate_insertion_rejected:
  assumes "total_order cf" and "built cf n s" and "nodes s a = None"
      and "size (tree s) < fuel" and "\<exists>e\<in>elements s. cf d e = 0"
  shows "addToRBTree fuel s d (Some a) = Inr (FAILURE, s)"
proof -
  obtain t where t: "rbt_inv s t" "compFunc (tree s) = cf"
    using built_inv [OF assms(1,2)] by blast
  have h: "height t < fuel"
    using assms(4) t(1) height_le_length [of t] by (simp add: rbt_inv_def)
  obtain e where e: "e \<in> set (inorder t)" "cf d e = 0"
    using assms(5) t(1) by (auto simp: rbt_inv_def elements_holds)
  have "descend cf d t [] = None"
    using descend_elem_None [OF assms(1) _ e] t by (simp add: rbt_inv_def bst_def)
  then show ?thesis
    using addToRBTree_dup [of s t a fuel d] assms(1,3) t h by simp
qed

theorem duplicate_insertion_rejected_witness:
  "total_order natCompare \<and> built natCompare 2 ex10_20 \<and> nodes ex10_20 3 = None \<and>
   size (tree ex10_20) < 3 \<and> (\<exists>e\<in>elements ex10_20. natCompare (Some 20) e = 0) \<and>
   addToRBTree 3 ex10_20 (Some 20) (Some 3) = Inr (FAILURE, ex10_20)"
proof -
  have f: "nodes ex10_20 3 = None" and z: "size (tree ex10_20) < 3"
    by (simp_all add: ex10_20_def)
  have e: "\<exists>e\<in>elements ex10_20. natCompare (Some 20) e = 0"
    by (simp add: elements_ex10_20 natCompare_def)
  show ?thesis
    using duplicate_insertion_rejected [OF total_order_natCompare built_ex10_20 f z e]
      total_order_natCompare built_ex10_20 f z e
    by simp
qed

section \<open>Early stop of the traversal\<close>

text \<open>
  C6.  Let the state hold a red-black tree, whose elements in ascending order are
  \<open>inorder t\<close>, as many as the count says.  When the visitor returns \<open>0\<close> on the \<open>k\<close>-th of
  them (\<open>1 \<le> k \<le> n\<close>) and something else on the earlier ones, \<open>forEachRBTree\<close> returns
  \<open>FAILURE\<close> and the visitor has been called on the first \<open>k\<close> elements and no other:
  \<open>k\<close> calls.
\<close>

theorem early_stop_after_k_visits:
  assumes "rbt_inv s t" and "height t \<le> fuel" and "1 \<le> k" and "k \<le> length (inorder t)"
      and "signals func (inorder t) args ! (k - 1) = 0"
      and "\<forall>i<k - 1. signals func (inorder t) args ! i \<noteq> 0"
  shows "ascending (compFunc (tree s)) (inorder t) \<and> set (inorder t) = elements s \<and>
         length (inorder t) = size (tree s) \<and>
         (\<exists>args'. forEachRBTree fuel (Some (tree s)) (nodes s) (Some func) args
            = (Inr FAILURE, args', take k (inorder t))) \<and>
         length (take k (inorder t)) = k"
proof -
  have hl: "holds s t" using assms(1) by (simp add: rbt_inv_def)
  have ne: "t \<noteq> Leaf" using assms(3,4) by auto
  have rp: "root (tree s) = rootp t" and re: "repr (nodes s) None t"
    using hl by (simp_all add: holds_def)
  have run: "forEachRBTree fuel (Some (tree s)) (nodes s) (Some func) args =
      (Inr (fst (visit func (inorder t) (args, []))), snd (visit func (inorder t) (args, [])))"
    using forEachNode_visit [OF re ne assms(2), of func "(args, [])"] rp
    by (simp add: forEachRBTree_def)
  obtain args' where "visit func (inorder t) (args, []) = (FAILURE, args', [] @ take k (inorder t))"
    using visit_stop [OF assms(3-6), of "[]"] by blast
  then show ?thesis
    using run assms(1,4) elements_holds [OF hl] by (simp add: rbt_inv_def bst_def)
qed

theorem early_stop_after_k_visits_witness:
  "rbt_inv ex10_20_30 tr10_20_30 \<and> height tr10_20_30 \<le> 2 \<and> (1 :: nat) \<le> 2 \<and>
   2 \<le> length (inorder tr10_20_30) \<and>
   signals (\<lambda>d c. (if d = Some 20 then 0 else 1, Suc c)) (inorder tr10_20_30) (0 :: nat) = [1, 0, 1] \<and>
   (\<exists>args'. forEachRBTree 2 (Some (tree ex10_20_30)) (nodes ex10_20_30)
      (Some (\<lambda>d c. (if d = Some 20 then 0 else 1, Suc c))) 0
      = (Inr FAILURE, args', [Some 10, Some 20]))"
proof -
  have h: "height tr10_20_30 \<le> 2" "(1 :: nat) \<le> 2" "2 \<le> length (inorder tr10_20_30)"
    by (simp_all add: tr10_20_30_def)
  have sg: "signals (\<lambda>d c. (if d = Some 20 then 0 else 1, Suc c)) (inorder tr10_20_30) (0 :: nat) = [1, 0, 1]"
    by (simp add: tr10_20_30_def)
  have g: "signals (\<lambda>d c. (if d = Some 20 then 0 else 1, Suc c)) (inorder tr10_20_30) (0 :: nat) ! (2 - 1) = 0"
    "\<forall>i<2 - 1. signals (\<lambda>d c. (if d = Some 20 then 0 else 1, Suc c)) (inorder tr10_20_30) (0 :: nat) ! i \<noteq> 0"
    by (simp_all add: sg)
  show ?thesis
    using early_stop_after_k_visits [OF rbt_inv_ex10_20_30 h g] rbt_inv_ex10_20_30 h sg
    by (simp add: tr10_20_30_def)
qed

section \<open>The count\<close>

text \<open>
  C7.  In a state built from \<open>newRBTree\<close> by calls of \<open>addToRBTree\<close> of which \<open>n\<close> returned
  success, the count is \<open>n\<close>; and after a further call that returns \<open>FAILURE\<close> (a duplicate,
  or no memory) the count is \<open>n\<close> still.  No assumption on the comparator is needed.
\<close>

theorem count_is_number_of_successes:
  "built cf n s \<Longrightarrow>
     size (tree s) = n \<and>
     (\<forall>fuel d alloc s'. addToRBTree fuel s d alloc = Inr (FAILURE, s') \<longrightarrow> size (tree s') = n)"
  using built_size [of cf n s] by (auto dest: addToRBTree_failure_count)

theorem count_is_number_of_successes_witness:
  "built natCompare 2 ex10_20 \<and>
   addToRBTree 3 ex10_20 (Some 20) (Some 3) = Inr (FAILURE, ex10_20) \<and>
   size (tree ex10_20) = 2"
proof -
  have "addToRBTree 3 ex10_20 (Some 20) (Some 3) = Inr (FAILURE, ex10_20)"
    by (simp add: run_defs ex10_20_def eval_nat_numeral)
  then show ?thesis
    using count_is_number_of_successes [OF built_ex10_20] built_ex10_20 by simp
qed

section \<open>Termination of the fixup\<close>

text \<open>
  C8.  For every node of every tree laid out in the store (the node with its subtree,
  below the path \<open>fs\<close> of its ancestors), \<open>modifyNode\<close> on that node does not run out of
  depth when twice the bound exceeds the number of the node's ancestors, which is less
  than the height of the tree: each recursive call is on the grandparent, two levels
  up, and a node without a grandparent ends the recursion; neither the colours nor the
  order of the elements matter for that.  Moreover the call returns a state when the
  root pointer of the tree points to the root and the root is BLACK or is the node
  itself, as in every call that \<open>addToRBTree\<close> makes: then a RED parent has a parent of its
  own, and every pointer that the fixup and its rotations follow is a node of the tree,
  whatever sides the comparator reports.
\<close>

theorem modifyNode_terminates:
  assumes "repr (nodes s) None (plug (Br a c l d r) fs)" and "length fs < 2 * fuel"
  shows "modifyNode fuel (Some a) s \<noteq> Inl OutOfFuel \<and>
         (root (tree s) = rootp (plug (Br a c l d r) fs) \<and> rootBlack fs \<longrightarrow>
            (\<exists>s'. modifyNode fuel (Some a) s = Inr s'))"
proof -
  have sh: "shape (nodes s) None (plug (Br a c l d r) fs)"
    using assms(1) by (rule repr_shape)
  have "shape (nodes s) None (plug (Br a c l d r) fs) \<Longrightarrow> length fs < 2 * fuel \<Longrightarrow>
          modifyNode fuel (Some a) s \<noteq> Inl OutOfFuel"
  proof (induction fuel arbitrary: s a c l d r fs)
    case 0
    then show ?case by simp
  next
    case (Suc k)
    show ?case
    proof (cases "modifyStep (Some a) s")
      case (Inl e)
      then show ?thesis
        using modifyStep_nf [of "Some a" s] by (simp only: modifyNode_step bindE_Inl) auto
    next
      case (Inr res)
      show ?thesis
      proof (cases res)
        case (Inl s')
        then show ?thesis using Inr by (simp only: modifyNode_step bindE_Inr sum.case) simp
      next
        case r: (Inr gs)
        obtain g s1 where gs: "gs = (g, s1)" by (cases gs)
        obtain f1 f2 fs' c2 l2 d2 r2 where up: "fs = f1 # f2 # fs'" "g = Some (faddr f2)"
            "shape (nodes s1) None (plug (Br (faddr f2) c2 l2 d2 r2) fs')"
          using modifyStep_up [OF Suc.prems(1)] Inr r gs by blast
        have "modifyNode k (Some (faddr f2)) s1 \<noteq> Inl OutOfFuel"
          using up(1) Suc.prems(2) by (intro Suc.IH [OF up(3)]) simp
        then show ?thesis
          using Inr r gs up(2) by (simp add: modifyNode_step del: modifyNode.simps)
      qed
    qed
  qed
  then have depth: "modifyNode fuel (Some a) s \<noteq> Inl OutOfFuel"
    using sh assms(2) by blast
  have "\<exists>s'. modifyNode fuel (Some a) s = Inr s'"
    if rt: "root (tree s) = rootp (plug (Br a c l d r) fs)" and rb: "rootBlack fs"
  proof -
    have rc: "fs \<noteq> [] \<longrightarrow> (\<exists>n. nodes s (faddr (last fs)) = Some n \<and> color n = BLACK)"
      using repr_root_color [OF assms(1)] rb by (auto simp: rootBlack_def)
    show ?thesis
      by (rule modifyNode_returns [OF sh rt rc assms(2)])
  qed
  then show ?thesis
    using depth by auto
qed

theorem modifyNode_terminates_witness:
  "addNewNode 3 (Some 2) (Some 4) natCompare
     ((nodes ex10_20_30)(4 \<mapsto> \<lparr>parent = None, left = None, right = None, color = RED, data = Some 40\<rparr>))
     = Inr (SUCCESS, nodes pending40) \<and>
   repr (nodes pending40) None
     (plug (Br 4 RED Leaf (Some 40) Leaf)
        [InRight 3 RED Leaf (Some 30), InRight 2 BLACK (Br 1 RED Leaf (Some 10) Leaf) (Some 20)]) \<and>
   length [InRight 3 RED Leaf (Some 30),
           InRight 2 BLACK (Br 1 RED Leaf (Some (10 :: nat)) Leaf) (Some 20)] < 2 * 2 \<and>
   root (tree pending40) =
     rootp (plug (Br 4 RED Leaf (Some 40) Leaf)
        [InRight 3 RED Leaf (Some 30), InRight 2 BLACK (Br 1 RED Leaf (Some 10) Leaf) (Some 20)]) \<and>
   rootBlack [InRight 3 RED Leaf (Some 30),
              InRight 2 BLACK (Br 1 RED Leaf (Some (10 :: nat)) Leaf) (Some 20)] \<and>
   modifyNode 2 (Some 4) pending40 \<noteq> Inl OutOfFuel \<and>
   (\<exists>s'. modifyNode 2 (Some 4) pending40 = Inr s') \<and>
   modifyNode 2 (Some 4) pending40 = Inr recolored40 \<and>
   modifyNode 1 (Some 4) pending40 = Inl OutOfFuel"
proof -
  let ?fs = "[InRight 3 RED Leaf (Some 30),
              InRight 2 BLACK (Br 1 RED Leaf (Some (10 :: nat)) Leaf) (Some 20)]"
  have r: "repr (nodes pending40) None (plug (Br 4 RED Leaf (Some 40) Leaf) ?fs)"
    by (simp add: pending40_def)
  have l: "length ?fs < 2 * 2"
    by simp
  have p: "root (tree pending40) = rootp (plug (Br 4 RED Leaf (Some 40) Leaf) ?fs)"
    by (simp add: pending40_def)
  have b: "rootBlack ?fs"
    by (simp add: rootBlack_def)
  show ?thesis
    using modifyNode_terminates [OF r l] r p b add_40_descent modifyNode_pending40
      modifyNode_pending40_short
    by simp
qed

section \<open>Teardown\<close>

text \<open>
  C9, as stated, fails on the \<open>NULL\<close> element.  The state after the insertion of \<open>NULL\<close> into
  the empty tree holds one element; \<open>freeRBTree\<close> frees the node and calls the destructor
  not once.
\<close>

theorem teardown_skips_null_element:
  "addToRBTree (Suc 0) (newRBTree natCompare) None (Some 1) = Inr (SUCCESS, exNull) \<and>
   holds exNull (Br 1 BLACK Leaf None Leaf) \<and>
   postorder (Br 1 BLACK Leaf (None :: nat option) Leaf) = [None] \<and>
   freeRBTree (Suc 0) (Some (tree exNull)) exNull = Inr (exNull\<lparr>nodes := Map.empty\<rparr>) \<and>
   freed (exNull\<lparr>nodes := Map.empty\<rparr>) = []"
  using add_null holds_exNull
  by (simp add: freeRBTree_def exNull_def deref_def free_mem_def)

text \<open>
  C9, amended.  For every state that holds a tree, \<open>freeRBTree\<close> with a depth bound of at
  least the height returns; it calls the destructor once on every stored element other
  than \<open>NULL\<close>, in post-order (left subtree, right subtree, then the node's element), and
  on no \<open>NULL\<close> element; every node is freed.  On the empty tree the destructor is not
  called.
\<close>

theorem teardown_post_order:
  assumes "holds s t" and "height t \<le> fuel"
  shows "freeRBTree fuel (Some (tree s)) s =
           Inr (s\<lparr>nodes := Map.empty, freed := freed s @ filter (\<lambda>d. d \<noteq> None) (postorder t)\<rparr>)"
proof (cases t)
  case Leaf
  then show ?thesis
    using holds_Leaf [of s] assms(1) by (simp add: freeRBTree_def)
next
  case (Br a c l d r)
  then have ne: "t \<noteq> Leaf" by simp
  have rp: "root (tree s) = rootp t" and re: "repr (nodes s) None t"
    and di: "distinct (addrs t)" and dom: "dom (nodes s) = set (addrs t)"
    using assms(1) by (simp_all add: holds_def)
  have "nodes s |` (- set (addrs t)) = Map.empty"
    using dom by (auto simp: restrict_map_def fun_eq_iff)
  then show ?thesis
    using freeNodes_released [OF re di ne assms(2)] rp Br
    by (simp add: freeRBTree_def released_def)
qed

theorem teardown_post_order_witness:
  "holds ex10_20_30 tr10_20_30 \<and> height tr10_20_30 \<le> 2 \<and>
   freeRBTree 2 (Some (tree ex10_20_30)) ex10_20_30 =
     Inr (ex10_20_30\<lparr>nodes := Map.empty, freed := [Some 10, Some 30, Some 20]\<rparr>)"
proof -
  have h: "holds ex10_20_30 tr10_20_30" using rbt_inv_ex10_20_30 by (simp add: rbt_inv_def)
  have e: "height tr10_20_30 \<le> 2" by (simp add: tr10_20_30_def)
  show ?thesis
    using teardown_post_order [OF h e] h e by (simp add: tr10_20_30_def ex10_20_30_def)
qed

section \<open>The NULL element\<close>

text \<open>
  C10.  \<open>addToRBTree\<close> does not look at its element: on an empty tree the \<open>NULL\<close> element
  is inserted like any other (the call succeeds, the new node is the BLACK root and holds
  \<open>NULL\<close>, the count grows by one).  \<open>containsRBTree\<close> answers \<open>FAILURE\<close> for the \<open>NULL\<close>
  element on every tree and every store, and its list of comparator calls is empty.
\<close>

theorem null_element_inserted_never_found:
  "root (tree (s :: 'a state)) = None \<Longrightarrow>
     addToRBTree (Suc k) s None (Some a) =
       Inr (SUCCESS,
            s\<lparr>nodes := (nodes s)(a \<mapsto> \<lparr>parent = None, left = None, right = None,
                                        color = BLACK, data = None\<rparr>),
              tree := (tree s)\<lparr>root := Some a, size := size (tree s) + 1\<rparr>\<rparr>)
     \<and> (\<forall>fuel t h. containsRBTree fuel t h (None :: 'a option) = Inr (FAILURE, []))"
  by (simp add: addToRBTree_def makeNewNode_def containsRBTree_def assign_Some
      split: option.split)

theorem null_element_inserted_never_found_witness:
  "root (tree (newRBTree (\<lambda>x y. 0 :: int) :: nat state)) = None \<and>
   addToRBTree (Suc 0) (newRBTree (\<lambda>x y. 0)) (None :: nat option) (Some 7) =
     Inr (SUCCESS,
          \<lparr>nodes = Map.empty(7 \<mapsto> \<lparr>parent = None, left = None, right = None,
                                   color = BLACK, data = None\<rparr>),
           tree = \<lparr>root = Some 7, compFunc = (\<lambda>x y. 0), size = 1\<rparr>, freed = []\<rparr>) \<and>
   containsRBTree 5 (Some \<lparr>root = Some 7, compFunc = (\<lambda>x y. 0), size = 1\<rparr>)
     (Map.empty(7 \<mapsto> \<lparr>parent = None, left = None, right = None, color = BLACK, data = None\<rparr>))
     (None :: nat option) = Inr (FAILURE, [])"
  using null_element_inserted_never_found [of "newRBTree (\<lambda>x y. 0) :: nat state" 0 7]
  by (simp add: newRBTree_def START_SIZE_def)

end
